theory Spec2Isabelle
  imports Complex_Main "HOL-Library.Monad_Syntax" "HOL-Library.Word"
begin

section \<open>C strings and the libc functions used by listener.c\<close>

text \<open>
  A pointer into a character array is modelled by the list of bytes from the pointer to
  the end of the array. A C string ends at its first NUL byte; the end of the list counts
  as a terminator too (every array that is read as a string here has been terminated
  explicitly by the code).
\<close>

definition NUL :: char where
  "NUL = CHR 0x00"

definition peek :: "char list \<Rightarrow> char" where
  "peek p = (case p of [] \<Rightarrow> NUL | c # _ \<Rightarrow> c)"

text \<open>The text of a C string: the bytes before the first NUL.\<close>

definition cstr :: "char list \<Rightarrow> char list" where
  "cstr p = takeWhile (\<lambda>c. c \<noteq> NUL) p"

definition strlen :: "char list \<Rightarrow> nat" where
  "strlen p = length (cstr p)"

text \<open>\<open>tolower\<close> in the C locale (the program never calls \<open>setlocale\<close>).\<close>

definition tolower :: "char \<Rightarrow> char" where
  "tolower c = (let n = (of_char c :: nat) in if 65 \<le> n \<and> n \<le> 90 then char_of (n + 32) else c)"

fun strncasecmp :: "char list \<Rightarrow> char list \<Rightarrow> nat \<Rightarrow> int" where
  "strncasecmp s1 s2 0 = 0"
| "strncasecmp s1 s2 (Suc n) =
     (let c1 = tolower (peek s1); c2 = tolower (peek s2)
      in if c1 \<noteq> c2 then int (of_char c1) - int (of_char c2)
         else if c1 = NUL then 0
         else strncasecmp (tl s1) (tl s2) n)"

fun strcasecmp :: "char list \<Rightarrow> char list \<Rightarrow> int" where
  "strcasecmp [] s2 = int (of_char (tolower NUL)) - int (of_char (tolower (peek s2)))"
| "strcasecmp (c # s1) s2 =
     (let c1 = tolower c; c2 = tolower (peek s2)
      in if c1 \<noteq> c2 then int (of_char c1) - int (of_char c2)
         else if c1 = NUL then 0
         else strcasecmp s1 (tl s2))"

text \<open>\<open>snprintf(dst, size, ...)\<close> keeps at most \<open>size - 1\<close> bytes of the formatted text.\<close>

definition snprintf :: "nat \<Rightarrow> char list \<Rightarrow> char list" where
  "snprintf sz s = take (sz - 1) s"

subsection \<open>Bounds-checked access to a destination array\<close>

text \<open>
  A destination array is the list of its bytes; its length is its capacity. Every access
  outside the array is undefined behaviour in C and is the value \<open>None\<close> here.
\<close>

definition load :: "char list \<Rightarrow> nat \<Rightarrow> char option" where
  "load buf i = (if i < length buf then Some (buf ! i) else None)"

definition store :: "char list \<Rightarrow> nat \<Rightarrow> char \<Rightarrow> char list option" where
  "store buf i c = (if i < length buf then Some (buf[i := c]) else None)"

definition memcpy :: "char list \<Rightarrow> char list \<Rightarrow> nat \<Rightarrow> char list option" where
  "memcpy dst src n =
     (if n \<le> length dst \<and> n \<le> length src then Some (take n src @ drop n dst) else None)"

text \<open>\<open>memmove(buf, buf + p, n)\<close>: source and destination lie in the same array.\<close>

definition memmove :: "char list \<Rightarrow> nat \<Rightarrow> nat \<Rightarrow> char list option" where
  "memmove buf p n =
     (if p + n \<le> length buf then Some (take n (drop p buf) @ drop n buf) else None)"

text \<open>\<open>strlen\<close> on a destination array: running off the array is an out-of-bounds read.\<close>

fun strlen_chk :: "char list \<Rightarrow> nat option" where
  "strlen_chk [] = None"
| "strlen_chk (c # cs) = (if c = NUL then Some 0 else map_option Suc (strlen_chk cs))"

section \<open>The field extractor \<open>xml_get_field\<close>\<close>

definition is_ws :: "char \<Rightarrow> bool" where
  "is_ws c = (c = CHR '' '' \<or> c = CHR 0x09 \<or> c = CHR 0x0D \<or> c = CHR 0x0A)"

text \<open>
  Both search loops: \<open>for (p = from; *p; p++) if (strncasecmp(p, tag, n) == 0) break;\<close>.
  The result is the offset of the match, counted from \<open>i\<close> at \<open>from\<close>; \<open>None\<close> is the
  pointer left at \<open>NULL\<close>.
\<close>

fun scan :: "char list \<Rightarrow> char list \<Rightarrow> nat \<Rightarrow> nat \<Rightarrow> nat option" where
  "scan [] t n i = None"
| "scan (c # cs) t n i =
     (if c = NUL then None
      else if strncasecmp (c # cs) t n = 0 then Some i
      else scan cs t n (Suc i))"

text \<open>\<open>while (*p == ' ' || *p == '\t' || *p == '\r' || *p == '\n') p++;\<close>\<close>

fun skip_ws :: "char list \<Rightarrow> nat option" where
  "skip_ws [] = None"
| "skip_ws (c # cs) = (if is_ws c then map_option Suc (skip_ws cs) else Some 0)"

text \<open>\<open>while (e >= buf && (*e == ' ' || ...)) *e-- = '\0';\<close> with \<open>e\<close> as an index.\<close>

function trim_trailing :: "char list \<Rightarrow> int \<Rightarrow> char list option" where
  "trim_trailing buf e =
     (if 0 \<le> e then
        (case load buf (nat e) of
           None \<Rightarrow> None
         | Some c \<Rightarrow>
             if is_ws c then
               (case store buf (nat e) NUL of
                  None \<Rightarrow> None
                | Some buf' \<Rightarrow> trim_trailing buf' (e - 1))
             else Some buf)
      else Some buf)"
  by pat_completeness auto
termination
  by (relation "measure (\<lambda>(buf, e). nat (e + 1))") auto

declare trim_trailing.simps [simp del]

text \<open>\<open>size_t\<close> subtraction wraps around (64-bit \<open>size_t\<close>).\<close>

definition size_t_sub :: "nat \<Rightarrow> nat \<Rightarrow> nat" where
  "size_t_sub a b = (if b \<le> a then a - b else a + 2 ^ 64 - b)"

text \<open>
  Lines 109 to 124: copy \<open>len\<close> bytes from \<open>start\<close>, terminate, trim on both sides.
  \<open>None\<close> is an access outside the destination array.
\<close>

definition copy_trim :: "char list \<Rightarrow> char list \<Rightarrow> nat \<Rightarrow> (int \<times> char list) option" where
  "copy_trim buf start len = do {
     buf1 \<leftarrow> memcpy buf start len;
     buf2 \<leftarrow> store buf1 len NUL;
     p \<leftarrow> skip_ws buf2;
     buf3 \<leftarrow> (if p \<noteq> 0
              then do { n \<leftarrow> strlen_chk (drop p buf2); memmove buf2 p (n + 1) }
              else Some buf2);
     n \<leftarrow> strlen_chk buf3;
     buf4 \<leftarrow> trim_trailing buf3 (int n - 1);
     Some (1, buf4)
   }"

definition open_tag_of :: "char list \<Rightarrow> char list" where
  "open_tag_of tag = snprintf 64 (''<'' @ cstr tag @ ''>'')"

definition close_tag_of :: "char list \<Rightarrow> char list" where
  "close_tag_of tag = snprintf 64 (''</'' @ cstr tag @ ''>'')"

text \<open>
  The result is the return value and the destination array after the call; \<open>None\<close> is an
  access outside the destination array.
\<close>

definition xml_get_field ::
  "char list \<Rightarrow> char list \<Rightarrow> char list \<Rightarrow> nat \<Rightarrow> (int \<times> char list) option" where
  "xml_get_field xml tag buf buflen =
     (let open_tag = open_tag_of tag;
          close_tag = close_tag_of tag;
          otlen = strlen open_tag;
          ctlen = strlen close_tag
      in case scan xml open_tag otlen 0 of
           None \<Rightarrow> Some (0, buf)
         | Some p \<Rightarrow>
             let start = p + otlen in
             (case scan (drop start xml) close_tag ctlen start of
                None \<Rightarrow> Some (0, buf)
              | Some e \<Rightarrow>
                  let len0 = e - start;
                      len = (if len0 \<ge> buflen then size_t_sub buflen 1 else len0)
                  in copy_trim buf (drop start xml) len))"

section \<open>The sound player (\<open>SOUND_MODE_WAV\<close>, the configured mode)\<close>

text \<open>
  What the program does to the outside world is a trace of events. A call of the field
  extractor or of the sound player is an event too, so that a claim about calls can be
  stated on the trace.
\<close>

datatype event =
    Stdout string
  | Stderr string
  | Perror string
  | Fflush
  | System string
  | Call_xml_get_field string
  | Call_play_sound

text \<open>
  What the environment decides for one iteration of the listener loop: whether
  \<open>malloc\<close> succeeds, the text \<open>strftime\<close> produces, and what \<open>system\<close> returns.
\<close>

record env =
  malloc_ok :: bool
  now :: string
  system_rc :: int

definition newline :: string where
  "newline = [CHR 0x0A]"

definition WAV_FILE :: string where
  "WAV_FILE = ''./handbell.wav''"

definition play_sound :: "env \<Rightarrow> event list" where
  "play_sound ev =
     (let cmd = snprintf 256 (''aplay -q '' @ [CHR 0x27] @ WAV_FILE @ [CHR 0x27] @ '' &'')
      in System cmd #
         (if system_rc ev \<noteq> 0 then [Stderr (''Warning: aplay returned error'' @ newline)] else []))"

section \<open>Processing one datagram\<close>

definition print_timestamp :: "env \<Rightarrow> event list" where
  "print_timestamp ev = [Stdout (''['' @ now ev @ ''] '')]"

text \<open>
  \<open>for (size_t i = 0; i + 13 <= len; i++)
       if (strncasecmp(buf + i, "<contactinfo>", 13) == 0) { found_ci = 1; break; }\<close>
  The datagram \<open>(buf, len)\<close> is the list of its \<open>len\<close> bytes.
\<close>

function find_contactinfo :: "char list \<Rightarrow> nat \<Rightarrow> bool" where
  "find_contactinfo buf i =
     (if i + 13 \<le> length buf then
        (if strncasecmp (drop i buf) ''<contactinfo>'' 13 = 0 then True
         else find_contactinfo buf (i + 1))
      else False)"
  by pat_completeness auto
termination
  by (relation "measure (\<lambda>(buf, i). length buf - i)") auto

declare find_contactinfo.simps [simp del]

text \<open>The eight destination arrays, lines 273 to 281, each initialised with \<open>""\<close>.\<close>

record fields =
  call :: "char list"
  band :: "char list"
  mode :: "char list"
  mult1 :: "char list"
  mult2 :: "char list"
  mult3 :: "char list"
  newqso :: "char list"
  xqso :: "char list"

definition char_array :: "nat \<Rightarrow> char list" where
  "char_array n = replicate n NUL"

text \<open>One call \<open>xml_get_field(xml, tag, dst, sizeof(dst))\<close>; the return value is ignored.\<close>

definition get_into :: "char list \<Rightarrow> char list \<Rightarrow> nat \<Rightarrow> char list option" where
  "get_into xml tag n = map_option snd (xml_get_field xml tag (char_array n) n)"

definition field_names :: "string list" where
  "field_names = [''call'', ''band'', ''mode'', ''mult1'', ''mult2'', ''mult3'', ''newqso'', ''xqso'']"

text \<open>Lines 273 to 290.\<close>

definition extract_fields :: "char list \<Rightarrow> fields option" where
  "extract_fields xml = do {
     c \<leftarrow> get_into xml ''call'' 64;
     b \<leftarrow> get_into xml ''band'' 32;
     m \<leftarrow> get_into xml ''mode'' 16;
     m1 \<leftarrow> get_into xml ''mult1'' 64;
     m2 \<leftarrow> get_into xml ''mult2'' 64;
     m3 \<leftarrow> get_into xml ''mult3'' 64;
     nq \<leftarrow> get_into xml ''newqso'' 16;
     xq \<leftarrow> get_into xml ''xqso'' 16;
     Some \<lparr>call = c, band = b, mode = m, mult1 = m1, mult2 = m2, mult3 = m3,
           newqso = nq, xqso = xq\<rparr>
   }"

text \<open>\<open>%-Ns\<close>: left-justified in a field of at least \<open>N\<close> characters.\<close>

definition pad :: "nat \<Rightarrow> string \<Rightarrow> string" where
  "pad n s = s @ replicate (n - length s) (CHR '' '')"

text \<open>\<open>x[0] ? x : "-"\<close>, printed with \<open>%s\<close>.\<close>

definition or_dash :: "char list \<Rightarrow> string" where
  "or_dash x = (if peek x \<noteq> NUL then cstr x else ''-'')"

definition log_line :: "string \<Rightarrow> fields \<Rightarrow> string" where
  "log_line src f =
     ''PKT from '' @ pad 15 src @
     '' call='' @ pad 8 (or_dash (call f)) @
     '' band='' @ pad 3 (or_dash (band f)) @
     '' mode='' @ pad 3 (or_dash (mode f)) @
     '' mult1='' @ pad 2 (or_dash (mult1 f)) @
     ''  mult2='' @ pad 2 (or_dash (mult2 f)) @
     ''  mult3='' @ pad 2 (or_dash (mult3 f)) @
     '' newqso='' @ pad 5 (or_dash (newqso f))"

text \<open>The marker; the arrow is the three bytes of its UTF-8 encoding.\<close>

definition mult_marker :: string where
  "mult_marker = ''  *** MULT '' @ [CHR 0xE2, CHR 0x86, CHR 0x92] @ '' SOUND ***''"

definition has_mult :: "fields \<Rightarrow> bool" where
  "has_mult f = (peek (mult1 f) \<noteq> NUL \<or> peek (mult2 f) \<noteq> NUL \<or> peek (mult3 f) \<noteq> NUL)"

definition is_new :: "fields \<Rightarrow> bool" where
  "is_new f = (strcasecmp (newqso f) ''true'' = 0)"

text \<open>Lines 292 to 315.\<close>

definition report :: "fields \<Rightarrow> string \<Rightarrow> env \<Rightarrow> event list" where
  "report f src ev =
     print_timestamp ev @
     [Stdout (log_line src f)] @
     (if has_mult f \<and> is_new f
      then [Stdout mult_marker, Fflush, Call_play_sound] @ play_sound ev
      else []) @
     [Stdout newline, Fflush]"

text \<open>
  \<open>src\<close> is the sender address as \<open>inet_ntoa\<close> prints it. \<open>None\<close> is an access outside
  an array.
\<close>

definition process_datagram :: "char list \<Rightarrow> string \<Rightarrow> env \<Rightarrow> event list option" where
  "process_datagram buf src ev =
     (if \<not> find_contactinfo buf 0 then Some []
      else if \<not> malloc_ok ev then Some [Perror ''malloc'']
      else
        let xml = buf @ [NUL] in
        do {
          f \<leftarrow> extract_fields xml;
          Some (map Call_xml_get_field field_names @ report f src ev)
        })"

section \<open>The listener loop\<close>

text \<open>
  One \<open>recvfrom\<close>: a failure (\<open>n < 0\<close>), or the \<open>n\<close> bytes received and the sender. The
  loop runs on the list of what the calls of \<open>recvfrom\<close> return, each with the
  environment of its iteration; at the end of the list the process is blocked in
  \<open>recvfrom\<close>.
\<close>

datatype recv = Recv_failed | Received "char list" string

fun listener_loop :: "(recv \<times> env) list \<Rightarrow> event list option" where
  "listener_loop [] = Some []"
| "listener_loop ((Recv_failed, ev) # rest) =
     do { tr \<leftarrow> listener_loop rest; Some (Perror ''recvfrom'' # tr) }"
| "listener_loop ((Received buf src, ev) # rest) =
     do { t \<leftarrow> process_datagram buf src ev;
          tr \<leftarrow> listener_loop rest;
          Some (t @ tr) }"

datatype status = Exited int | Blocked_in_recvfrom

definition LISTEN_PORT :: nat where
  "LISTEN_PORT = 12060"

text \<open>\<open>%d\<close> on a value that is not negative.\<close>

fun show_nat :: "nat \<Rightarrow> string" where
  "show_nat n = (if n < 10 then [char_of (48 + n)] else show_nat (n div 10) @ [char_of (48 + n mod 10)])"

definition banner :: "event list" where
  "banner =
     [Stdout (''=== DXLog Multiplier Listener ==='' @ newline),
      Stdout (''Port      : UDP '' @ show_nat LISTEN_PORT @ newline),
      Stdout (''Trigger   : mult1/mult2/mult3 non-empty AND newqso=true'' @ newline),
      Stdout (''Sound     : '' @ ''WAV file via aplay ('' @ WAV_FILE @ '')'' @ newline),
      Stdout newline,
      Fflush]"

definition listening :: "event list" where
  "listening =
     [Stdout (''Listening on 0.0.0.0:'' @ show_nat LISTEN_PORT @ '' '' @
              [CHR 0xE2, CHR 0x80, CHR 0xA6] @ newline @ newline),
      Fflush]"

text \<open>\<open>main\<close>, given whether \<open>socket\<close> and \<open>bind\<close> succeed.\<close>

definition main :: "bool \<Rightarrow> bool \<Rightarrow> (recv \<times> env) list \<Rightarrow> (event list \<times> status) option" where
  "main socket_ok bind_ok inputs =
     (if \<not> socket_ok then Some (banner @ [Perror ''socket''], Exited 1)
      else if \<not> bind_ok then Some (banner @ [Perror ''bind''], Exited 1)
      else do {
        tr \<leftarrow> listener_loop inputs;
        Some (banner @ listening @ tr, Blocked_in_recvfrom)
      })"

section \<open>Tone generation (\<open>SOUND_MODE_BEEP\<close> and \<open>SOUND_MODE_ALSA\<close>)\<close>

text \<open>
  The macros the two tone loops read: \<open>BEEP_FREQ_HZ\<close>, \<open>BEEP_DURATION\<close> and
  \<open>SAMPLE_RATE\<close> are \<open>int\<close> constants, \<open>volume\<close> is the value of the literal
  \<open>BEEP_VOLUME\<close>.
\<close>

record tone_config =
  freq :: int
  duration :: int
  volume :: real
  rate :: int

definition configured :: tone_config where
  "configured = \<lparr>freq = 880, duration = 400, volume = 6 / 10, rate = 44100\<rparr>"

text \<open>
  \<open>int\<close> has 32 bits. A product that does not fit is undefined behaviour, the value
  \<open>None\<close>. The product \<open>SAMPLE_RATE * BEEP_DURATION\<close> is the only operation on \<open>int\<close> in
  the loops that can leave the range: the sample count is at most a thousandth of
  \<open>INT_MAX\<close>, \<open>fadelen\<close> at most a fiftieth, and \<open>i\<close> stays below the sample count.
\<close>

definition in_int :: "int \<Rightarrow> bool" where
  "in_int x = (- (2 ^ 31) \<le> x \<and> x < 2 ^ 31)"

definition int_mul :: "int \<Rightarrow> int \<Rightarrow> int option" where
  "int_mul a b = (if in_int a \<and> in_int b \<and> in_int (a * b) then Some (a * b) else None)"

text \<open>Division of \<open>int\<close> in C truncates towards zero.\<close>

definition c_div :: "int \<Rightarrow> int \<Rightarrow> int" where
  "c_div a b = sgn a * sgn b * (\<bar>a\<bar> div \<bar>b\<bar>)"

text \<open>
  A \<open>double\<close> is the real number it stands for (infinities and NaN do not arise in
  the loops). What the machine and \<open>libm\<close> compute is a parameter: the conversion from
  \<open>int\<close>, the value the compiler gives a literal, \<open>M_PI\<close>, product, quotient and \<open>sin\<close>,
  each with whatever rounding it has.
\<close>

record fp_ops =
  fp_of_int :: "int \<Rightarrow> real"
  fp_lit :: "real \<Rightarrow> real"
  fp_pi :: "real"
  fp_mul :: "real \<Rightarrow> real \<Rightarrow> real"
  fp_div :: "real \<Rightarrow> real \<Rightarrow> real"
  fp_sin :: "real \<Rightarrow> real"

text \<open>
  Conversion of a \<open>double\<close> to an integer type discards the fractional part
  (truncation towards zero); it is undefined behaviour, the value \<open>None\<close>, when the
  integral part is not a \<open>short\<close>.
\<close>

definition c_trunc :: "real \<Rightarrow> int" where
  "c_trunc x = (if 0 \<le> x then \<lfloor>x\<rfloor> else \<lceil>x\<rceil>)"

definition to_short :: "real \<Rightarrow> 16 word option" where
  "to_short x = (if - 32769 < x \<and> x < 32768 then Some (word_of_int (c_trunc x)) else None)"

subsection \<open>Strategy 2: lines 149 to 165\<close>

definition num_samples_beep :: "tone_config \<Rightarrow> int option" where
  "num_samples_beep cfg = map_option (\<lambda>p. c_div p 1000) (int_mul (rate cfg) (duration cfg))"

text \<open>Lines 155 to 164, up to the \<open>double\<close> that is converted: \<open>s * 32767.0\<close>.\<close>

definition value_beep :: "fp_ops \<Rightarrow> tone_config \<Rightarrow> int \<Rightarrow> int \<Rightarrow> real" where
  "value_beep fp cfg num_samples i =
     (let t = fp_div fp (fp_of_int fp i) (fp_of_int fp (rate cfg));
          fade = fp_lit fp 1;
          fadelen = c_div (rate cfg) 50;
          fade = (if i < fadelen then fp_div fp (fp_of_int fp i) (fp_of_int fp fadelen)
                  else if i > num_samples - fadelen
                  then fp_div fp (fp_of_int fp (num_samples - i)) (fp_of_int fp fadelen)
                  else fade);
          s = fp_mul fp (fp_mul fp (fp_lit fp (volume cfg)) fade)
                (fp_sin fp (fp_mul fp
                   (fp_mul fp (fp_mul fp (fp_lit fp 2) (fp_pi fp)) (fp_of_int fp (freq cfg))) t))
      in fp_mul fp s (fp_lit fp 32767))"

text \<open>\<open>samples[i] = (short)(s * 32767.0);\<close>\<close>

definition body_beep :: "fp_ops \<Rightarrow> tone_config \<Rightarrow> int \<Rightarrow> int \<Rightarrow> 16 word option" where
  "body_beep fp cfg num_samples i = to_short (value_beep fp cfg num_samples i)"

function loop_beep ::
  "fp_ops \<Rightarrow> tone_config \<Rightarrow> int \<Rightarrow> int \<Rightarrow> 16 word list \<Rightarrow> 16 word list option" where
  "loop_beep fp cfg num_samples i samples =
     (if i < num_samples
      then (case body_beep fp cfg num_samples i of
              None \<Rightarrow> None
            | Some v \<Rightarrow> loop_beep fp cfg num_samples (i + 1) (samples[nat i := v]))
      else Some samples)"
  by pat_completeness auto
termination
  by (relation "measure (\<lambda>(fp, cfg, n, i, samples). nat (n - i))") auto

declare loop_beep.simps [simp del]

text \<open>
  \<open>samples\<close> is the array that \<open>malloc\<close> returned, \<open>num_samples\<close> elements of
  indeterminate content.
\<close>

definition tone_beep :: "fp_ops \<Rightarrow> tone_config \<Rightarrow> 16 word list \<Rightarrow> 16 word list option" where
  "tone_beep fp cfg samples =
     (case num_samples_beep cfg of
        None \<Rightarrow> None
      | Some num_samples \<Rightarrow> loop_beep fp cfg num_samples 0 samples)"

subsection \<open>Strategy 3: lines 210 to 225\<close>

definition num_samples_alsa :: "tone_config \<Rightarrow> int option" where
  "num_samples_alsa cfg = map_option (\<lambda>p. c_div p 1000) (int_mul (rate cfg) (duration cfg))"

text \<open>Lines 215 to 224, up to the \<open>double\<close> that is converted.\<close>

definition value_alsa :: "fp_ops \<Rightarrow> tone_config \<Rightarrow> int \<Rightarrow> int \<Rightarrow> real" where
  "value_alsa fp cfg num_samples i =
     (let t = fp_div fp (fp_of_int fp i) (fp_of_int fp (rate cfg));
          fade = fp_lit fp 1;
          fadelen = c_div (rate cfg) 50;
          fade = (if i < fadelen then fp_div fp (fp_of_int fp i) (fp_of_int fp fadelen)
                  else if i > num_samples - fadelen
                  then fp_div fp (fp_of_int fp (num_samples - i)) (fp_of_int fp fadelen)
                  else fade);
          s = fp_mul fp (fp_mul fp (fp_lit fp (volume cfg)) fade)
                (fp_sin fp (fp_mul fp
                   (fp_mul fp (fp_mul fp (fp_lit fp 2) (fp_pi fp)) (fp_of_int fp (freq cfg))) t))
      in fp_mul fp s (fp_lit fp 32767))"

definition body_alsa :: "fp_ops \<Rightarrow> tone_config \<Rightarrow> int \<Rightarrow> int \<Rightarrow> 16 word option" where
  "body_alsa fp cfg num_samples i = to_short (value_alsa fp cfg num_samples i)"

function loop_alsa ::
  "fp_ops \<Rightarrow> tone_config \<Rightarrow> int \<Rightarrow> int \<Rightarrow> 16 word list \<Rightarrow> 16 word list option" where
  "loop_alsa fp cfg num_samples i samples =
     (if i < num_samples
      then (case body_alsa fp cfg num_samples i of
              None \<Rightarrow> None
            | Some v \<Rightarrow> loop_alsa fp cfg num_samples (i + 1) (samples[nat i := v]))
      else Some samples)"
  by pat_completeness auto
termination
  by (relation "measure (\<lambda>(fp, cfg, n, i, samples). nat (n - i))") auto

declare loop_alsa.simps [simp del]

definition tone_alsa :: "fp_ops \<Rightarrow> tone_config \<Rightarrow> 16 word list \<Rightarrow> 16 word list option" where
  "tone_alsa fp cfg samples =
     (case num_samples_alsa cfg of
        None \<Rightarrow> None
      | Some num_samples \<Rightarrow> loop_alsa fp cfg num_samples 0 samples)"

section \<open>Vocabulary of the specification\<close>

text \<open>The pattern \<open>t\<close> occurs in \<open>doc\<close> at offset \<open>k\<close>, letter case ignored.\<close>

definition ci_match_at :: "char list \<Rightarrow> char list \<Rightarrow> nat \<Rightarrow> bool" where
  "ci_match_at t doc k =
     (k + length t \<le> length doc \<and> map tolower (take (length t) (drop k doc)) = map tolower t)"

text \<open>Offset \<open>k\<close> is the first occurrence of \<open>t\<close> in \<open>doc\<close>.\<close>

definition first_match :: "char list \<Rightarrow> char list \<Rightarrow> nat \<Rightarrow> bool" where
  "first_match t doc k = (ci_match_at t doc k \<and> (\<forall>k' \<in> {0..<k}. \<not> ci_match_at t doc k'))"

text \<open>\<open>t\<close> occurs somewhere in \<open>doc\<close>, letter case ignored.\<close>

definition occurs :: "char list \<Rightarrow> char list \<Rightarrow> bool" where
  "occurs t doc = (\<exists>k \<in> set [0..<Suc (length doc)]. ci_match_at t doc k)"

text \<open>
  Extraction of \<open>tag\<close> from \<open>doc\<close> fails: the opening tag does not occur, or the
  closing tag does not occur after the first opening tag.
\<close>

definition extraction_fails :: "char list \<Rightarrow> char list \<Rightarrow> bool" where
  "extraction_fails tag doc =
     (\<not> occurs (''<'' @ tag @ ''>'') doc \<or>
      (\<exists>i \<in> set [0..<Suc (length doc)]. first_match (''<'' @ tag @ ''>'') doc i \<and>
         \<not> occurs (''</'' @ tag @ ''>'') (drop (i + length (''<'' @ tag @ ''>'')) doc)))"

text \<open>
  The trigger rule of the specification, on the strings held by the extracted fields.
\<close>

definition trigger :: "fields \<Rightarrow> bool" where
  "trigger f =
     ((cstr (mult1 f) \<noteq> [] \<or> cstr (mult2 f) \<noteq> [] \<or> cstr (mult3 f) \<noteq> []) \<and>
      map tolower (cstr (newqso f)) = map tolower ''true'')"

text \<open>
  The seven fields that the log line prints: tag, capacity of the destination, the
  field, its label in the log line and its width there.
\<close>

definition printed ::
  "(string \<times> nat \<times> (fields \<Rightarrow> char list) \<times> string \<times> nat) list" where
  "printed =
     [(''call'', 64, call, '' call='', 8),
      (''band'', 32, band, '' band='', 3),
      (''mode'', 16, mode, '' mode='', 3),
      (''mult1'', 64, mult1, '' mult1='', 2),
      (''mult2'', 64, mult2, ''  mult2='', 2),
      (''mult3'', 64, mult3, ''  mult3='', 2),
      (''newqso'', 16, newqso, '' newqso='', 5)]"

text \<open>The eight destination arrays as they are initialised.\<close>

definition no_fields :: fields where
  "no_fields = \<lparr>call = char_array 64, band = char_array 32, mode = char_array 16,
                mult1 = char_array 64, mult2 = char_array 64, mult3 = char_array 64,
                newqso = char_array 16, xqso = char_array 16\<rparr>"

text \<open>Leading and trailing space, tab, carriage return and newline removed.\<close>

definition trim :: "char list \<Rightarrow> char list" where
  "trim v = rev (dropWhile is_ws (rev (dropWhile is_ws v)))"

text \<open>
  What is asked of the arithmetic on \<open>double\<close>: conversion from \<open>int\<close> is exact up to
  \<open>2 ^ 53\<close>; a literal, \<open>M_PI\<close>, a product and a quotient of magnitude up to \<open>10 ^ 100\<close>
  are within \<open>u * (\<bar>x\<bar> + 1)\<close> of their exact value \<open>x\<close>; \<open>sin\<close> is within \<open>u\<close>. IEEE
  binary64 with round to nearest and a \<open>sin\<close> accurate to one unit in the last place
  meet it with \<open>u = 2 ^ - 52\<close>.
\<close>

definition ieee_like :: "real \<Rightarrow> fp_ops \<Rightarrow> bool" where
  "ieee_like u fp =
     (0 \<le> u \<and>
      (\<forall>n. \<bar>n\<bar> \<le> 2 ^ 53 \<longrightarrow> fp_of_int fp n = real_of_int n) \<and>
      (\<forall>x. \<bar>x\<bar> \<le> 10 ^ 100 \<longrightarrow> \<bar>fp_lit fp x - x\<bar> \<le> u * (\<bar>x\<bar> + 1)) \<and>
      \<bar>fp_pi fp - pi\<bar> \<le> u * (pi + 1) \<and>
      (\<forall>x y. \<bar>x * y\<bar> \<le> 10 ^ 100 \<longrightarrow> \<bar>fp_mul fp x y - x * y\<bar> \<le> u * (\<bar>x * y\<bar> + 1)) \<and>
      (\<forall>x y. y \<noteq> 0 \<longrightarrow> \<bar>x / y\<bar> \<le> 10 ^ 100 \<longrightarrow> \<bar>fp_div fp x y - x / y\<bar> \<le> u * (\<bar>x / y\<bar> + 1)) \<and>
      (\<forall>x. \<bar>fp_sin fp x - sin x\<bar> \<le> u))"

text \<open>The arithmetic without any rounding error; it meets \<open>ieee_like\<close> with \<open>u = 0\<close>.\<close>

definition exact :: fp_ops where
  "exact = \<lparr>fp_of_int = real_of_int, fp_lit = (\<lambda>x. x), fp_pi = pi,
             fp_mul = (\<lambda>x y. x * y), fp_div = (\<lambda>x y. x / y), fp_sin = sin\<rparr>"

text \<open>
  The sample formula of the specification, with \<open>round\<close> as written there, and the
  same formula with the fractional part discarded instead.
\<close>

definition fade_spec :: "tone_config \<Rightarrow> int \<Rightarrow> int \<Rightarrow> real" where
  "fade_spec cfg n i =
     (if i < rate cfg div 50 then real_of_int i / real_of_int (rate cfg div 50)
      else if n - rate cfg div 50 < i then real_of_int (n - i) / real_of_int (rate cfg div 50)
      else 1)"

definition wave_spec :: "tone_config \<Rightarrow> int \<Rightarrow> int \<Rightarrow> real" where
  "wave_spec cfg n i =
     volume cfg * fade_spec cfg n i
       * sin (2 * pi * real_of_int (freq cfg) * real_of_int i / real_of_int (rate cfg)) * 32767"

definition sample_rounded :: "tone_config \<Rightarrow> int \<Rightarrow> int \<Rightarrow> int" where
  "sample_rounded cfg n i = round (wave_spec cfg n i)"

definition sample_truncated :: "tone_config \<Rightarrow> int \<Rightarrow> int \<Rightarrow> int" where
  "sample_truncated cfg n i = c_trunc (wave_spec cfg n i)"

section \<open>Facts about the string functions\<close>

lemma of_char_tolower:
  "(of_char (tolower c) :: nat) =
     (if 65 \<le> (of_char c :: nat) \<and> (of_char c :: nat) \<le> 90 then of_char c + 32 else of_char c)"
  by (simp add: tolower_def Let_def)

lemma tolower_NUL [simp]: "tolower c = NUL \<longleftrightarrow> c = NUL"
proof -
  have "tolower c = NUL \<longleftrightarrow> (of_char (tolower c) :: nat) = of_char NUL"
    by simp
  also have "\<dots> \<longleftrightarrow> (of_char c :: nat) = of_char NUL"
    by (simp add: of_char_tolower NUL_def)
  also have "\<dots> \<longleftrightarrow> c = NUL" by simp
  finally show ?thesis .
qed

lemma tolower_NUL' [simp]: "NUL = tolower c \<longleftrightarrow> c = NUL"
  by (metis tolower_NUL)

lemma tolower_NUL_val [simp]: "tolower NUL = NUL"
  by simp

lemma cstr_Nil [simp]: "cstr [] = []"
  by (simp add: cstr_def)

lemma cstr_Cons: "cstr (c # cs) = (if c = NUL then [] else c # cstr cs)"
  by (simp add: cstr_def)

lemma strncasecmp_eq0:
  "NUL \<notin> set t \<Longrightarrow> strncasecmp s t (length t) = 0 \<longleftrightarrow>
     (length t \<le> length (cstr s) \<and> map tolower (take (length t) (cstr s)) = map tolower t)"
proof (induction t arbitrary: s)
  case Nil
  then show ?case by simp
next
  case (Cons a t)
  show ?case
  proof (cases s)
    case Nil
    then show ?thesis using Cons.prems by (auto simp add: peek_def Let_def)
  next
    case (Cons c cs)
    then show ?thesis using Cons.prems Cons.IH[of cs]
      by (auto simp add: peek_def Let_def cstr_Cons)
  qed
qed

lemma cstr_drop: "k \<le> length (cstr s) \<Longrightarrow> cstr (drop k s) = drop k (cstr s)"
  unfolding cstr_def by (induction s arbitrary: k) (auto simp: drop_Cons split: nat.splits)

lemma ci_match_at_0: "NUL \<notin> set t \<Longrightarrow> strncasecmp s t (length t) = 0 \<longleftrightarrow> ci_match_at t (cstr s) 0"
  by (simp add: strncasecmp_eq0 ci_match_at_def)

lemma ci_match_at_Cons: "ci_match_at t (c # d) (Suc k) = ci_match_at t d k"
  by (simp add: ci_match_at_def)

lemma scan_Cons_nz:
  "c \<noteq> NUL \<Longrightarrow> NUL \<notin> set t \<Longrightarrow> scan (c # s) t (length t) i =
     (if ci_match_at t (c # cstr s) 0 then Some i else scan s t (length t) (Suc i))"
  using ci_match_at_0[of t "c # s"] by (simp add: cstr_Cons)

lemma scan_NUL: "scan (NUL # s) t n i = None"
  by simp

lemma no_match_Nil: "t \<noteq> [] \<Longrightarrow> \<not> ci_match_at t [] k"
  by (simp add: ci_match_at_def)

lemma all_Suc_split: "(\<forall>k. P k) \<longleftrightarrow> (P 0 \<and> (\<forall>k. P (Suc k)))"
  by (metis not0_implies_Suc)

lemma scan_None:
  assumes "NUL \<notin> set t" "t \<noteq> []"
  shows "scan s t (length t) i = None \<longleftrightarrow> (\<forall>k. \<not> ci_match_at t (cstr s) k)"
proof (induction s arbitrary: i)
  case Nil
  then show ?case using assms by (simp add: no_match_Nil)
next
  case (Cons c s)
  show ?case
  proof (cases "c = NUL")
    case True
    then show ?thesis using assms by (simp add: cstr_Cons no_match_Nil)
  next
    case False
    have "(\<forall>k. \<not> ci_match_at t (c # cstr s) k) \<longleftrightarrow>
             (\<not> ci_match_at t (c # cstr s) 0 \<and> (\<forall>k. \<not> ci_match_at t (cstr s) k))"
      by (subst all_Suc_split) (simp only: ci_match_at_Cons)
    moreover have "cstr (c # s) = c # cstr s" using False by (simp add: cstr_Cons)
    ultimately show ?thesis
      using Cons.IH[of "Suc i"] by (simp only: scan_Cons_nz[OF False assms(1)] split: if_splits) simp
  qed
qed

lemma first_match_0: "first_match t doc 0 = ci_match_at t doc 0"
  by (simp add: first_match_def)

lemma ball_Suc_split: "(\<forall>k' \<in> {0..<Suc k}. P k') \<longleftrightarrow> (P 0 \<and> (\<forall>k' \<in> {0..<k}. P (Suc k')))"
proof
  assume L: "\<forall>k' \<in> {0..<Suc k}. P k'"
  show "P 0 \<and> (\<forall>k' \<in> {0..<k}. P (Suc k'))"
    using L by auto
next
  assume R: "P 0 \<and> (\<forall>k' \<in> {0..<k}. P (Suc k'))"
  show "\<forall>k' \<in> {0..<Suc k}. P k'"
  proof
    fix k' assume "k' \<in> {0..<Suc k}"
    then show "P k'" using R by (cases k') auto
  qed
qed

lemma first_match_Suc:
  "first_match t (c # d) (Suc k) = (\<not> ci_match_at t (c # d) 0 \<and> first_match t d k)"
  unfolding first_match_def ball_Suc_split ci_match_at_Cons by blast

lemma first_match_unique: "first_match t doc k \<Longrightarrow> first_match t doc k' \<Longrightarrow> k = k'"
  unfolding first_match_def by (metis atLeastLessThan_iff linorder_neqE_nat zero_le)

lemma scan_Some:
  assumes "NUL \<notin> set t" "t \<noteq> []"
  shows "scan s t (length t) i = Some j \<longleftrightarrow> (\<exists>k. j = i + k \<and> first_match t (cstr s) k)"
proof (induction s arbitrary: i)
  case Nil
  then show ?case using assms by (simp add: first_match_def no_match_Nil)
next
  case (Cons c s)
  show ?case
  proof (cases "c = NUL")
    case True
    then show ?thesis using assms by (simp add: cstr_Cons first_match_def no_match_Nil)
  next
    case False
    have cs: "cstr (c # s) = c # cstr s" using False by (simp add: cstr_Cons)
    show ?thesis
    proof (cases "ci_match_at t (c # cstr s) 0")
      case True
      have "(\<exists>k. j = i + k \<and> first_match t (c # cstr s) k) \<longleftrightarrow> j = i"
      proof
        assume "\<exists>k. j = i + k \<and> first_match t (c # cstr s) k"
        then obtain k where k: "j = i + k" "first_match t (c # cstr s) k" by blast
        have "k = 0" using k(2) True by (cases k) (simp_all add: first_match_Suc)
        with k show "j = i" by simp
      next
        assume "j = i"
        then show "\<exists>k. j = i + k \<and> first_match t (c # cstr s) k"
          using True by (intro exI[of _ 0]) (simp add: first_match_0)
      qed
      then show ?thesis
        unfolding cs scan_Cons_nz[OF False assms(1)] using True by auto
    next
      case nm: False
      have "(\<exists>k. j = i + k \<and> first_match t (c # cstr s) k) \<longleftrightarrow>
            (\<exists>k. j = Suc i + k \<and> first_match t (cstr s) k)"
      proof
        assume "\<exists>k. j = i + k \<and> first_match t (c # cstr s) k"
        then obtain k where k: "j = i + k" "first_match t (c # cstr s) k" by blast
        from k(2) nm obtain m where m: "k = Suc m"
          by (cases k) (simp_all add: first_match_0)
        from k(2) m have "first_match t (cstr s) m" by (simp add: first_match_Suc)
        with k(1) m show "\<exists>k. j = Suc i + k \<and> first_match t (cstr s) k" by auto
      next
        assume "\<exists>k. j = Suc i + k \<and> first_match t (cstr s) k"
        then obtain k where k: "j = Suc i + k" "first_match t (cstr s) k" by blast
        then have "j = i + Suc k \<and> first_match t (c # cstr s) (Suc k)"
          using nm by (simp add: first_match_Suc)
        then show "\<exists>k. j = i + k \<and> first_match t (c # cstr s) k" by blast
      qed
      then show ?thesis
        unfolding cs scan_Cons_nz[OF False assms(1)] using nm Cons.IH[of "Suc i"] by simp
    qed
  qed
qed

lemma not_ws_NUL [simp]: "\<not> is_ws NUL"
  by (simp add: is_ws_def NUL_def)

lemma skip_ws_append:
  "\<not> is_ws c \<Longrightarrow> skip_ws (v @ c # r) = Some (length (takeWhile is_ws v))"
  by (induction v) auto

lemma strlen_chk_append:
  "NUL \<notin> set w \<Longrightarrow> strlen_chk (w @ NUL # r) = Some (length w)"
  by (induction w) auto

lemma cstr_append_NUL:
  "NUL \<notin> set w \<Longrightarrow> cstr (w @ NUL # r) = w"
  by (induction w) (auto simp: cstr_Cons)

lemma trim_trailing_neg: "e < 0 \<Longrightarrow> trim_trailing buf e = Some buf"
  by (subst trim_trailing.simps) simp

lemma trim_trailing_snoc:
  "trim_trailing (a @ c # z) (int (length a)) =
     (if is_ws c then trim_trailing (a @ NUL # z) (int (length a) - 1) else Some (a @ c # z))"
  by (subst trim_trailing.simps) (simp add: load_def store_def)

lemma trim_trailing_append:
  "trim_trailing (a @ z) (int (length a) - 1) =
     Some (rev (dropWhile is_ws (rev a)) @ replicate (length (takeWhile is_ws (rev a))) NUL @ z)"
proof (induction a arbitrary: z rule: rev_induct)
  case Nil
  then show ?case by (simp add: trim_trailing_neg)
next
  case (snoc c a)
  have "trim_trailing ((a @ [c]) @ z) (int (length (a @ [c])) - 1) =
        trim_trailing (a @ c # z) (int (length a))" by simp
  also have "\<dots> = (if is_ws c then trim_trailing (a @ NUL # z) (int (length a) - 1) else Some (a @ c # z))"
    by (rule trim_trailing_snoc)
  finally show ?case
    using snoc.IH[of "NUL # z"] by (simp add: replicate_append_same)
qed

lemma trim_no_NUL: "NUL \<notin> set v \<Longrightarrow> NUL \<notin> set (trim v)"
  unfolding trim_def using set_dropWhileD by (metis set_rev)

lemma cstr_replicate_NUL: "NUL \<notin> set x \<Longrightarrow> cstr (x @ replicate k NUL @ NUL # r) = x"
  by (cases k) (simp_all add: cstr_append_NUL)

lemma copy_trim_ok:
  assumes len: "len < length buf" "len \<le> length src" and nz: "NUL \<notin> set (take len src)"
  shows "\<exists>buf'. copy_trim buf src len = Some (1, buf') \<and> length buf' = length buf
            \<and> cstr buf' = trim (take len src) \<and> NUL \<in> set buf'"
proof -
  define v where "v = take len src"
  define r where "r = drop (Suc len) buf"
  define w where "w = dropWhile is_ws v"
  define p where "p = length (takeWhile is_ws v)"
  have lv: "length v = len" using len by (simp add: v_def)
  have b1: "memcpy buf src len = Some (v @ drop len buf)"
    using len by (simp add: memcpy_def v_def)
  have dl: "drop len buf = buf ! len # r"
    unfolding r_def using len(1) by (rule Cons_nth_drop_Suc[symmetric])
  have b2: "store (v @ drop len buf) len NUL = Some (v @ NUL # r)"
    unfolding dl using lv by (simp add: store_def list_update_append)
  have sk: "skip_ws (v @ NUL # r) = Some p"
    by (simp add: skip_ws_append p_def)
  have vw: "v = takeWhile is_ws v @ w" by (simp add: w_def)
  have nzw: "NUL \<notin> set w" using nz unfolding w_def v_def by (metis set_dropWhileD)
  have drp: "drop p (v @ NUL # r) = w @ NUL # r"
    using length_takeWhile_le[of is_ws v] by (simp add: p_def w_def dropWhile_eq_drop[symmetric])
  have lr: "length r = length buf - Suc len" by (simp add: r_def)
  have "length (takeWhile is_ws v @ w) = len" using lv vw by simp
  then have pw: "p + length w = len" by (simp add: p_def)
  define buf3 where "buf3 = (if p = 0 then r else drop (length w + 1) (v @ NUL # r))"
  have b3: "(if p \<noteq> 0
                             then do { n \<leftarrow> strlen_chk (drop p (v @ NUL # r)); memmove (v @ NUL # r) p (n + 1) }
                             else Some (v @ NUL # r)) = Some (w @ NUL # buf3)"
  proof (cases "p = 0")
    case True
    then have "takeWhile is_ws v = []" by (simp add: p_def)
    then have "w = v" using vw by simp
    with True show ?thesis by (simp add: buf3_def)
  next
    case False
    have bnd: "p + (length w + 1) \<le> length (v @ NUL # r)"
      using pw lv lr len by simp
    have tk: "take (length w + 1) (drop p (v @ NUL # r)) = w @ [NUL]"
      unfolding drp by simp
    have "memmove (v @ NUL # r) p (length w + 1) =
            Some (take (length w + 1) (drop p (v @ NUL # r)) @ drop (length w + 1) (v @ NUL # r))"
      using bnd by (simp only: memmove_def if_True)
    then have mm: "memmove (v @ NUL # r) p (length w + 1) = Some (w @ NUL # buf3)"
      using False by (simp only: tk buf3_def if_False append.simps append_assoc)
    have "strlen_chk (drop p (v @ NUL # r)) = Some (length w)"
      unfolding drp by (rule strlen_chk_append[OF nzw])
    then show ?thesis using False mm by (simp only: if_True not_False_eq_True bind.bind_lunit)
  qed
  have l3: "length (w @ NUL # buf3) = length buf"
    using pw lv lr len by (auto simp: buf3_def)
  have tt: "trim_trailing (w @ NUL # buf3) (int (length w) - 1) =
     Some (rev (dropWhile is_ws (rev w)) @ replicate (length (takeWhile is_ws (rev w))) NUL @ NUL # buf3)"
    by (rule trim_trailing_append)
  let ?res = "rev (dropWhile is_ws (rev w)) @ replicate (length (takeWhile is_ws (rev w))) NUL @ NUL # buf3"
  have "copy_trim buf src len = Some (1, ?res)"
    unfolding copy_trim_def b1 using b2 sk b3 tt
    by (simp add: strlen_chk_append[OF nzw])
  moreover have "length ?res = length buf"
  proof -
    have "length (takeWhile is_ws (rev w) @ dropWhile is_ws (rev w)) = length w"
      by (simp only: takeWhile_dropWhile_id length_rev)
    then have "length (rev (dropWhile is_ws (rev w))) + length (takeWhile is_ws (rev w)) = length w"
      by (simp only: length_append length_rev add.commute)
    then show ?thesis using l3 by simp
  qed
  moreover have "cstr ?res = trim (take len src)"
  proof -
    have "NUL \<notin> set (rev (dropWhile is_ws (rev w)))"
      using nzw by (metis set_dropWhileD set_rev)
    then show ?thesis
      by (simp add: cstr_replicate_NUL trim_def w_def v_def)
  qed
  moreover have "NUL \<in> set ?res" by simp
  ultimately show ?thesis by blast
qed

section \<open>Facts about \<open>xml_get_field\<close>\<close>

lemma cstr_no_NUL: "NUL \<notin> set (cstr s)"
  unfolding cstr_def by (induction s) auto

lemma cstr_id: "NUL \<notin> set s \<Longrightarrow> cstr s = s"
  unfolding cstr_def by (induction s) auto

lemma take_cstr: "k \<le> length (cstr s) \<Longrightarrow> take k s = take k (cstr s)"
  unfolding cstr_def by (induction s arbitrary: k) (auto simp: take_Cons split: nat.splits)

lemma length_cstr_le: "length (cstr s) \<le> length s"
  unfolding cstr_def by (rule length_takeWhile_le)

lemma is_lt_NUL: "CHR ''<'' \<noteq> NUL" "CHR ''>'' \<noteq> NUL" "CHR ''/'' \<noteq> NUL"
  by (simp_all add: NUL_def)

lemma open_tag_props:
  "NUL \<notin> set (open_tag_of tag)" "open_tag_of tag \<noteq> []"
  "strlen (open_tag_of tag) = length (open_tag_of tag)"
proof -
  have "NUL \<notin> set (''<'' @ cstr tag @ ''>'')"
    using cstr_no_NUL[of tag] is_lt_NUL by auto
  then show 1: "NUL \<notin> set (open_tag_of tag)"
    unfolding open_tag_of_def snprintf_def by (meson in_set_takeD)
  show "open_tag_of tag \<noteq> []"
    by (simp add: open_tag_of_def snprintf_def)
  show "strlen (open_tag_of tag) = length (open_tag_of tag)"
    using 1 by (simp add: strlen_def cstr_id)
qed

lemma close_tag_props:
  "NUL \<notin> set (close_tag_of tag)" "close_tag_of tag \<noteq> []"
  "strlen (close_tag_of tag) = length (close_tag_of tag)"
proof -
  have "NUL \<notin> set (''</'' @ cstr tag @ ''>'')"
    using cstr_no_NUL[of tag] is_lt_NUL by auto
  then show 1: "NUL \<notin> set (close_tag_of tag)"
    unfolding close_tag_of_def snprintf_def by (meson in_set_takeD)
  show "close_tag_of tag \<noteq> []"
    by (simp add: close_tag_of_def snprintf_def)
  show "strlen (close_tag_of tag) = length (close_tag_of tag)"
    using 1 by (simp add: strlen_def cstr_id)
qed

lemma open_tag_short:
  "NUL \<notin> set tag \<Longrightarrow> length tag \<le> 61 \<Longrightarrow> open_tag_of tag = ''<'' @ tag @ ''>''"
  by (simp add: open_tag_of_def snprintf_def cstr_id)

lemma close_tag_short:
  "NUL \<notin> set tag \<Longrightarrow> length tag \<le> 60 \<Longrightarrow> close_tag_of tag = ''</'' @ tag @ ''>''"
  by (simp add: close_tag_of_def snprintf_def cstr_id)

lemma scan_open_None:
  "scan xml (open_tag_of tag) (strlen (open_tag_of tag)) i = None \<longleftrightarrow>
     (\<forall>k. \<not> ci_match_at (open_tag_of tag) (cstr xml) k)"
  unfolding open_tag_props(3) by (rule scan_None[OF open_tag_props(1,2)])

lemma scan_open_Some:
  "scan xml (open_tag_of tag) (strlen (open_tag_of tag)) i = Some j \<longleftrightarrow>
     (\<exists>k. j = i + k \<and> first_match (open_tag_of tag) (cstr xml) k)"
  unfolding open_tag_props(3) by (rule scan_Some[OF open_tag_props(1,2)])

lemma scan_close_None:
  "scan xml (close_tag_of tag) (strlen (close_tag_of tag)) i = None \<longleftrightarrow>
     (\<forall>k. \<not> ci_match_at (close_tag_of tag) (cstr xml) k)"
  unfolding close_tag_props(3) by (rule scan_None[OF close_tag_props(1,2)])

lemma scan_close_Some:
  "scan xml (close_tag_of tag) (strlen (close_tag_of tag)) i = Some j \<longleftrightarrow>
     (\<exists>k. j = i + k \<and> first_match (close_tag_of tag) (cstr xml) k)"
  unfolding close_tag_props(3) by (rule scan_Some[OF close_tag_props(1,2)])

lemma first_match_bound: "first_match t doc k \<Longrightarrow> k + length t \<le> length doc"
  by (simp add: first_match_def ci_match_at_def)

lemma occurs_iff: "occurs t doc \<longleftrightarrow> (\<exists>k. ci_match_at t doc k)"
proof
  assume "occurs t doc"
  then show "\<exists>k. ci_match_at t doc k" unfolding occurs_def by blast
next
  assume "\<exists>k. ci_match_at t doc k"
  then obtain k where k: "ci_match_at t doc k" by blast
  then have "k \<le> length doc" by (simp add: ci_match_at_def)
  then have "k \<in> set [0..<Suc (length doc)]" by auto
  with k show "occurs t doc" unfolding occurs_def by blast
qed

lemma not_occurs_iff: "\<not> occurs t doc \<longleftrightarrow> (\<forall>k. \<not> ci_match_at t doc k)"
  by (simp add: occurs_iff)

text \<open>The three ways through \<open>xml_get_field\<close>.\<close>

lemma xgf_no_open:
  assumes "\<forall>k. \<not> ci_match_at (open_tag_of tag) (cstr xml) k"
  shows "xml_get_field xml tag buf buflen = Some (0, buf)"
proof -
  have "scan xml (open_tag_of tag) (strlen (open_tag_of tag)) 0 = None"
    using assms scan_open_None[of xml tag 0] by blast
  then show ?thesis by (simp add: xml_get_field_def Let_def)
qed

lemma xgf_no_close:
  assumes "first_match (open_tag_of tag) (cstr xml) i"
      and "\<forall>k. \<not> ci_match_at (close_tag_of tag) (drop (i + length (open_tag_of tag)) (cstr xml)) k"
  shows "xml_get_field xml tag buf buflen = Some (0, buf)"
proof -
  let ?ot = "open_tag_of tag"
  have 1: "scan xml ?ot (strlen ?ot) 0 = Some i"
    using assms(1) by (simp only: scan_open_Some) simp
  have "i + length ?ot \<le> length (cstr xml)" using assms(1) by (rule first_match_bound)
  then have c: "cstr (drop (i + length ?ot) xml) = drop (i + length ?ot) (cstr xml)"
    by (rule cstr_drop)
  have 2: "scan (drop (i + length ?ot) xml) (close_tag_of tag) (strlen (close_tag_of tag)) (i + length ?ot) = None"
    using assms(2) scan_close_None[of "drop (i + length ?ot) xml" tag "i + length ?ot"] unfolding c by blast
  show ?thesis
    using 1 2 by (simp add: xml_get_field_def Let_def open_tag_props(3))
qed

lemma xgf_found:
  assumes "first_match (open_tag_of tag) (cstr xml) i"
      and "first_match (close_tag_of tag) (drop (i + length (open_tag_of tag)) (cstr xml)) j"
  shows "xml_get_field xml tag buf buflen =
           copy_trim buf (drop (i + length (open_tag_of tag)) xml)
             (if buflen \<le> j then size_t_sub buflen 1 else j)"
proof -
  let ?ot = "open_tag_of tag"
  have 1: "scan xml ?ot (strlen ?ot) 0 = Some i"
    using assms(1) by (simp only: scan_open_Some) simp
  have "i + length ?ot \<le> length (cstr xml)" using assms(1) by (rule first_match_bound)
  then have c: "cstr (drop (i + length ?ot) xml) = drop (i + length ?ot) (cstr xml)"
    by (rule cstr_drop)
  have 2: "scan (drop (i + length ?ot) xml) (close_tag_of tag) (strlen (close_tag_of tag)) (i + length ?ot)
             = Some (i + length ?ot + j)"
    using assms(2) by (simp only: scan_close_Some c) blast
  show ?thesis
    using 1 2 by (simp add: xml_get_field_def Let_def open_tag_props(3))
qed

text \<open>The value between the tags, as far as it is copied.\<close>

lemma xgf_found_value:
  assumes om: "first_match (open_tag_of tag) (cstr xml) i"
      and cm: "first_match (close_tag_of tag) (drop (i + length (open_tag_of tag)) (cstr xml)) j"
      and len: "length buf = buflen" "1 \<le> buflen"
  shows "\<exists>buf'. xml_get_field xml tag buf buflen = Some (1, buf') \<and> length buf' = buflen
            \<and> NUL \<in> set buf'
            \<and> cstr buf' = trim (take (min j (buflen - 1))
                                  (drop (i + length (open_tag_of tag)) (cstr xml)))"
proof -
  let ?st = "i + length (open_tag_of tag)"
  let ?len = "if buflen \<le> j then size_t_sub buflen 1 else j"
  have l: "?len = min j (buflen - 1)"
    using len(2) by (auto simp: size_t_sub_def)
  have "?st \<le> length (cstr xml)" using om by (rule first_match_bound)
  then have c: "cstr (drop ?st xml) = drop ?st (cstr xml)"
    by (rule cstr_drop)
  have jb: "j \<le> length (cstr (drop ?st xml))"
    using first_match_bound[OF cm] unfolding c by simp
  have lb: "min j (buflen - 1) \<le> length (cstr (drop ?st xml))" using jb by simp
  have tk: "take (min j (buflen - 1)) (drop ?st xml) = take (min j (buflen - 1)) (drop ?st (cstr xml))"
    using take_cstr[OF lb] unfolding c .
  have a1: "min j (buflen - 1) < length buf" using len by simp
  have a2: "min j (buflen - 1) \<le> length (drop ?st xml)"
    using lb length_cstr_le[of "drop ?st xml"] by linarith
  have a3: "NUL \<notin> set (take (min j (buflen - 1)) (drop ?st xml))"
    unfolding tk using cstr_no_NUL[of xml] by (meson in_set_dropD in_set_takeD)
  from copy_trim_ok[OF a1 a2 a3] obtain buf' where
    "copy_trim buf (drop ?st xml) (min j (buflen - 1)) = Some (1, buf')"
    "length buf' = length buf" "cstr buf' = trim (take (min j (buflen - 1)) (drop ?st xml))"
    "NUL \<in> set buf'" by blast
  then show ?thesis
    unfolding xgf_found[OF om cm] l tk using len(1) by simp
qed

text \<open>Whatever the document and the tag: one of the three ways.\<close>

lemma xgf_cases:
  obtains (no_open) "\<forall>k. \<not> ci_match_at (open_tag_of tag) (cstr xml) k"
  | (no_close) i where "first_match (open_tag_of tag) (cstr xml) i"
      "\<forall>k. \<not> ci_match_at (close_tag_of tag) (drop (i + length (open_tag_of tag)) (cstr xml)) k"
  | (found) i j where "first_match (open_tag_of tag) (cstr xml) i"
      "first_match (close_tag_of tag) (drop (i + length (open_tag_of tag)) (cstr xml)) j"
proof (cases "scan xml (open_tag_of tag) (strlen (open_tag_of tag)) 0")
  case None
  then show ?thesis using no_open scan_open_None[of xml tag 0] by blast
next
  case (Some i)
  then have om: "first_match (open_tag_of tag) (cstr xml) i"
    by (simp only: scan_open_Some) simp
  let ?rest = "drop (i + length (open_tag_of tag)) (cstr xml)"
  show ?thesis
  proof (cases "scan ?rest (close_tag_of tag) (strlen (close_tag_of tag)) 0")
    case None
    then have "\<forall>k. \<not> ci_match_at (close_tag_of tag) (cstr ?rest) k"
      using scan_close_None[of ?rest tag 0] by blast
    moreover have "cstr ?rest = ?rest"
      using cstr_no_NUL[of xml] by (intro cstr_id) (meson in_set_dropD)
    ultimately show ?thesis using no_close[OF om] by simp
  next
    case (Some j)
    then have "first_match (close_tag_of tag) (cstr ?rest) j"
      by (simp only: scan_close_Some) simp
    moreover have "cstr ?rest = ?rest"
      using cstr_no_NUL[of xml] by (intro cstr_id) (meson in_set_dropD)
    ultimately show ?thesis using found[OF om] by simp
  qed
qed

lemma xgf_safe:
  assumes "length buf = buflen" "1 \<le> buflen"
  shows "\<exists>r buf'. xml_get_field xml tag buf buflen = Some (r, buf') \<and> length buf' = buflen
           \<and> (r = 0 \<and> buf' = buf \<or> r = 1 \<and> NUL \<in> set buf')"
proof (cases rule: xgf_cases[of tag xml])
  case no_open
  then show ?thesis using assms by (simp add: xgf_no_open)
next
  case (no_close i)
  then show ?thesis using assms by (simp add: xgf_no_close)
next
  case (found i j)
  from xgf_found_value[OF found assms] show ?thesis by auto
qed

section \<open>The field extractor: claims\<close>

lemma cstr_shorter: "NUL \<in> set b \<Longrightarrow> length (cstr b) < length b"
  unfolding cstr_def by (induction b) auto

text \<open>
  C4 as stated fails for a tag of more than 60 bytes: \<open>snprintf\<close> cuts \<open></tag>\<close> to the
  63 bytes that \<open>close_tag\<close> holds. With a tag of 61 bytes the closing \<open>>\<close> is lost, so a
  document whose closing tag lacks the \<open>>\<close> does not contain \<open></tag>\<close>, and yet the field
  is found.
\<close>

theorem xml_get_field_long_tag:
  "first_match (''<'' @ replicate 61 (CHR ''a'') @ ''>'')
     (cstr (''<'' @ replicate 61 (CHR ''a'') @ ''>'' @ ''x'' @ ''</'' @ replicate 61 (CHR ''a'') @ [NUL])) 0
   \<and> \<not> occurs (''</'' @ replicate 61 (CHR ''a'') @ ''>'')
         (drop (0 + length (''<'' @ replicate 61 (CHR ''a'') @ ''>''))
            (cstr (''<'' @ replicate 61 (CHR ''a'') @ ''>'' @ ''x'' @ ''</'' @ replicate 61 (CHR ''a'') @ [NUL])))
   \<and> map_option (\<lambda>(r, b). (r, cstr b))
         (xml_get_field
            (''<'' @ replicate 61 (CHR ''a'') @ ''>'' @ ''x'' @ ''</'' @ replicate 61 (CHR ''a'') @ [NUL])
            (replicate 61 (CHR ''a'')) (char_array 64) 64) = Some (1, ''x'')"
  by code_simp

text \<open>
  C4, amended. For a tag of at most 60 bytes: when the opening tag occurs in the
  document and the closing tag occurs nowhere after its first occurrence,
  \<open>xml_get_field\<close> returns 0 and leaves the destination as it was, which is what it does
  on a document \<open>xml'\<close> without the opening tag.
\<close>

theorem xml_get_field_closing_tag_missing:
  assumes "NUL \<notin> set tag" "length tag \<le> 60"
      and "first_match (''<'' @ tag @ ''>'') (cstr xml) i"
      and "\<not> occurs (''</'' @ tag @ ''>'') (drop (i + length (''<'' @ tag @ ''>'')) (cstr xml))"
      and "\<not> occurs (''<'' @ tag @ ''>'') (cstr xml')"
  shows "xml_get_field xml tag buf buflen = Some (0, buf)
       \<and> xml_get_field xml' tag buf buflen = Some (0, buf)"
proof -
  have ot: "open_tag_of tag = ''<'' @ tag @ ''>''"
    using assms(1,2) by (intro open_tag_short) auto
  have ct: "close_tag_of tag = ''</'' @ tag @ ''>''"
    using assms(1,2) by (rule close_tag_short)
  have om: "first_match (open_tag_of tag) (cstr xml) i"
    unfolding ot by (rule assms(3))
  have nc: "\<forall>k. \<not> ci_match_at (close_tag_of tag)
                  (drop (i + length (open_tag_of tag)) (cstr xml)) k"
    unfolding ot ct using assms(4) not_occurs_iff by blast
  have no: "\<forall>k. \<not> ci_match_at (open_tag_of tag) (cstr xml') k"
    unfolding ot using assms(5) not_occurs_iff by blast
  show ?thesis
    using xgf_no_close[OF om nc] xgf_no_open[OF no] by simp
qed

theorem xml_get_field_closing_tag_missing_witness:
  "NUL \<notin> set ''call'' \<and> length ''call'' \<le> 60
   \<and> first_match (''<'' @ ''call'' @ ''>'') (cstr (''<Call>W1AW'' @ [NUL])) 0
   \<and> \<not> occurs (''</'' @ ''call'' @ ''>'')
                  (drop (0 + length (''<'' @ ''call'' @ ''>'')) (cstr (''<Call>W1AW'' @ [NUL])))
   \<and> \<not> occurs (''<'' @ ''call'' @ ''>'') (cstr (''W1AW'' @ [NUL]))
   \<and> xml_get_field (''<Call>W1AW'' @ [NUL]) ''call'' (char_array 64) 64 = Some (0, char_array 64)
   \<and> xml_get_field (''W1AW'' @ [NUL]) ''call'' (char_array 64) 64 = Some (0, char_array 64)"
proof -
  have h1: "NUL \<notin> set ''call''" by (simp add: NUL_def)
  have h2: "length ''call'' \<le> 60" by simp
  have h3: "first_match (''<'' @ ''call'' @ ''>'') (cstr (''<Call>W1AW'' @ [NUL])) 0"
    by code_simp
  have h4: "\<not> occurs (''</'' @ ''call'' @ ''>'')
                  (drop (0 + length (''<'' @ ''call'' @ ''>'')) (cstr (''<Call>W1AW'' @ [NUL])))"
    by code_simp
  have h5: "\<not> occurs (''<'' @ ''call'' @ ''>'') (cstr (''W1AW'' @ [NUL]))"
    by code_simp
  from xml_get_field_closing_tag_missing[OF h1 h2 h3 h4 h5, of "char_array 64" 64]
  show ?thesis using h1 h2 h3 h4 h5 by blast
qed

text \<open>
  C3 as stated fails when the text between the tags is not shorter than the
  destination: the text is cut to \<open>buflen - 1\<close> bytes first and trimmed afterwards. With
  twenty spaces before \<open>true\<close> and the 16-byte array of \<open>newqso\<close>, the stored string is
  empty, while the trimmed inner text is \<open>true\<close>.
\<close>

theorem xml_get_field_truncates_before_trimming:
  "map_option (\<lambda>(r, b). (r, cstr b))
     (xml_get_field (''<newqso>'' @ replicate 20 (CHR '' '') @ ''true</newqso>'' @ [NUL])
        ''newqso'' (char_array 16) 16) = Some (1, [])
   \<and> trim (replicate 20 (CHR '' '') @ ''true'') = ''true''"
  by code_simp

text \<open>
  C3, amended. With the first occurrence of the opening tag at \<open>i\<close> and the first
  occurrence of the closing tag \<open>j\<close> bytes after it (letter case ignored in both),
  \<open>xml_get_field\<close> returns 1 and stores the first \<open>buflen - 1\<close> bytes of the inner text,
  trimmed; that is the whole inner text, trimmed, when the inner text is shorter than
  \<open>buflen\<close>.
\<close>

theorem xml_get_field_value:
  assumes "NUL \<notin> set tag" "length tag \<le> 60"
      and "first_match (''<'' @ tag @ ''>'') (cstr xml) i"
      and "first_match (''</'' @ tag @ ''>'') (drop (i + length (''<'' @ tag @ ''>'')) (cstr xml)) j"
      and "length buf = buflen" "1 \<le> buflen"
  shows "\<exists>buf'. xml_get_field xml tag buf buflen = Some (1, buf')
           \<and> cstr buf' = trim (take (buflen - 1)
                                 (take j (drop (i + length (''<'' @ tag @ ''>'')) (cstr xml))))
           \<and> (j < buflen \<longrightarrow>
                cstr buf' = trim (take j (drop (i + length (''<'' @ tag @ ''>'')) (cstr xml))))"
proof -
  have ot: "open_tag_of tag = ''<'' @ tag @ ''>''"
    using assms(1,2) by (intro open_tag_short) auto
  have ct: "close_tag_of tag = ''</'' @ tag @ ''>''"
    using assms(1,2) by (rule close_tag_short)
  have om: "first_match (open_tag_of tag) (cstr xml) i"
    unfolding ot by (rule assms(3))
  have cm: "first_match (close_tag_of tag) (drop (i + length (open_tag_of tag)) (cstr xml)) j"
    unfolding ot ct by (rule assms(4))
  from xgf_found_value[OF om cm assms(5,6)] obtain buf' where
    b: "xml_get_field xml tag buf buflen = Some (1, buf')"
       "cstr buf' = trim (take (min j (buflen - 1)) (drop (i + length (open_tag_of tag)) (cstr xml)))"
    by blast
  have "take (buflen - 1) (take j (drop (i + length (''<'' @ tag @ ''>'')) (cstr xml)))
          = take (min j (buflen - 1)) (drop (i + length (open_tag_of tag)) (cstr xml))"
    by (simp only: take_take ot min.commute)
  moreover have "j < buflen \<Longrightarrow> min j (buflen - 1) = j" by simp
  ultimately show ?thesis using b by (auto simp only: ot)
qed

theorem xml_get_field_value_witness:
  "NUL \<notin> set ''mult1'' \<and> length ''mult1'' \<le> 60
   \<and> first_match (''<'' @ ''mult1'' @ ''>'') (cstr (''<Mult1> 10 </Mult1>'' @ [NUL])) 0
   \<and> first_match (''</'' @ ''mult1'' @ ''>'')
        (drop (0 + length (''<'' @ ''mult1'' @ ''>'')) (cstr (''<Mult1> 10 </Mult1>'' @ [NUL]))) 4
   \<and> length (char_array 64) = 64 \<and> (1::nat) \<le> 64
   \<and> (\<exists>buf'. xml_get_field (''<Mult1> 10 </Mult1>'' @ [NUL]) ''mult1'' (char_array 64) 64 = Some (1, buf')
         \<and> cstr buf' = ''10'')"
proof -
  have h1: "NUL \<notin> set ''mult1''" by (simp add: NUL_def)
  have h2: "length ''mult1'' \<le> 60" by simp
  have h3: "first_match (''<'' @ ''mult1'' @ ''>'') (cstr (''<Mult1> 10 </Mult1>'' @ [NUL])) 0"
    by code_simp
  have h4: "first_match (''</'' @ ''mult1'' @ ''>'')
        (drop (0 + length (''<'' @ ''mult1'' @ ''>'')) (cstr (''<Mult1> 10 </Mult1>'' @ [NUL]))) 4"
    by code_simp
  have h5: "length (char_array 64) = 64" by (simp add: char_array_def)
  have h6: "(1::nat) \<le> 64" by simp
  have v: "trim (take 4 (drop (0 + length (''<'' @ ''mult1'' @ ''>'')) (cstr (''<Mult1> 10 </Mult1>'' @ [NUL])))) = ''10''"
    by code_simp
  from xml_get_field_value[OF h1 h2 h3 h4 h5 h6]
  show ?thesis using h1 h2 h3 h4 h5 v by auto
qed

text \<open>
  C5. With a destination of capacity \<open>buflen \<ge> 1\<close>, \<open>xml_get_field\<close> never accesses the
  destination outside its bounds (the result is never \<open>None\<close>, and the array keeps its
  length); when it returns 1 the destination holds a NUL, so the stored string is
  shorter than \<open>buflen\<close>; and a value of \<open>buflen\<close> bytes or more is cut to \<open>buflen - 1\<close>
  bytes, with 1 returned all the same.
\<close>

theorem xml_get_field_bounded:
  assumes "length buf = buflen" "1 \<le> buflen"
  shows "(\<exists>r buf'. xml_get_field xml tag buf buflen = Some (r, buf') \<and> length buf' = buflen
            \<and> (r = 0 \<and> buf' = buf \<or> r = 1 \<and> NUL \<in> set buf' \<and> strlen buf' < buflen))
       \<and> (first_match (open_tag_of tag) (cstr xml) i
            \<and> first_match (close_tag_of tag) (drop (i + length (open_tag_of tag)) (cstr xml)) j
            \<and> buflen \<le> j
          \<longrightarrow> (\<exists>buf'. xml_get_field xml tag buf buflen = Some (1, buf')
                 \<and> cstr buf' = trim (take (buflen - 1)
                                       (drop (i + length (open_tag_of tag)) (cstr xml)))))"
proof (intro conjI impI)
  from xgf_safe[OF assms, of xml tag] obtain r buf' where
    b: "xml_get_field xml tag buf buflen = Some (r, buf')" "length buf' = buflen"
       "r = 0 \<and> buf' = buf \<or> r = 1 \<and> NUL \<in> set buf'" by blast
  have "NUL \<in> set buf' \<Longrightarrow> strlen buf' < buflen"
    using cstr_shorter[of buf'] b(2) by (simp add: strlen_def)
  with b show "\<exists>r buf'. xml_get_field xml tag buf buflen = Some (r, buf') \<and> length buf' = buflen
            \<and> (r = 0 \<and> buf' = buf \<or> r = 1 \<and> NUL \<in> set buf' \<and> strlen buf' < buflen)"
    by blast
next
  assume a: "first_match (open_tag_of tag) (cstr xml) i
            \<and> first_match (close_tag_of tag) (drop (i + length (open_tag_of tag)) (cstr xml)) j
            \<and> buflen \<le> j"
  then have om: "first_match (open_tag_of tag) (cstr xml) i"
    and cm: "first_match (close_tag_of tag) (drop (i + length (open_tag_of tag)) (cstr xml)) j"
    and big: "buflen \<le> j" by simp_all
  have "min j (buflen - 1) = buflen - 1" using big by simp
  with xgf_found_value[OF om cm assms]
  show "\<exists>buf'. xml_get_field xml tag buf buflen = Some (1, buf')
                 \<and> cstr buf' = trim (take (buflen - 1)
                                       (drop (i + length (open_tag_of tag)) (cstr xml)))"
    by auto
qed

theorem xml_get_field_bounded_witness:
  "length (char_array 4) = 4 \<and> (1::nat) \<le> 4
   \<and> first_match (open_tag_of ''mode'') (cstr (''<mode>ABCDEFGH</mode>'' @ [NUL])) 0
   \<and> first_match (close_tag_of ''mode'')
        (drop (0 + length (open_tag_of ''mode'')) (cstr (''<mode>ABCDEFGH</mode>'' @ [NUL]))) 8
   \<and> (4::nat) \<le> 8
   \<and> (\<exists>buf'. xml_get_field (''<mode>ABCDEFGH</mode>'' @ [NUL]) ''mode'' (char_array 4) 4 = Some (1, buf')
         \<and> cstr buf' = ''ABC'')"
proof -
  have h1: "length (char_array 4) = 4" by (simp add: char_array_def)
  have h2: "(1::nat) \<le> 4" by simp
  have h3: "first_match (open_tag_of ''mode'') (cstr (''<mode>ABCDEFGH</mode>'' @ [NUL])) 0"
    by code_simp
  have h4: "first_match (close_tag_of ''mode'')
        (drop (0 + length (open_tag_of ''mode'')) (cstr (''<mode>ABCDEFGH</mode>'' @ [NUL]))) 8"
    by code_simp
  have v: "trim (take (4 - 1) (drop (0 + length (open_tag_of ''mode'')) (cstr (''<mode>ABCDEFGH</mode>'' @ [NUL])))) = ''ABC''"
    by code_simp
  from xml_get_field_bounded[OF h1 h2, of "''<mode>ABCDEFGH</mode>'' @ [NUL]" "''mode''" 0 8]
  show ?thesis using h1 h3 h4 v by auto
qed

section \<open>Facts about \<open>process_datagram\<close>\<close>

lemma marker_props:
  "NUL \<notin> set ''<contactinfo>''" "length ''<contactinfo>'' = 13"
  by (simp_all add: NUL_def)

lemma map_tolower_no_NUL:
  "map tolower a = map tolower t \<Longrightarrow> NUL \<notin> set t \<Longrightarrow> NUL \<notin> set a"
proof (induction a arbitrary: t)
  case Nil
  then show ?case by simp
next
  case (Cons c a)
  then obtain d t' where t: "t = d # t'" by (cases t) auto
  with Cons.prems have "tolower c = tolower d" "map tolower a = map tolower t'" "d \<noteq> NUL" "NUL \<notin> set t'"
    by auto
  moreover from this have "c \<noteq> NUL" by (metis tolower_NUL)
  ultimately show ?case using Cons.IH[of t'] by auto
qed

lemma cstr_take_no_NUL:
  "NUL \<notin> set (take n s) \<Longrightarrow> n \<le> length s \<Longrightarrow> n \<le> length (cstr s) \<and> take n (cstr s) = take n s"
  unfolding cstr_def
  by (induction s arbitrary: n) (auto simp: take_Cons split: nat.splits)

lemma ci_match_at_cstr_0:
  assumes "NUL \<notin> set t"
  shows "ci_match_at t (cstr s) 0 \<longleftrightarrow> ci_match_at t s 0"
proof
  assume a: "ci_match_at t (cstr s) 0"
  then have l: "length t \<le> length (cstr s)" by (simp add: ci_match_at_def)
  from take_cstr[OF l] a length_cstr_le[of s] l show "ci_match_at t s 0"
    by (simp add: ci_match_at_def)
next
  assume a: "ci_match_at t s 0"
  then have l: "length t \<le> length s" and m: "map tolower (take (length t) s) = map tolower t"
    by (simp_all add: ci_match_at_def)
  from map_tolower_no_NUL[OF m assms] have "NUL \<notin> set (take (length t) s)" .
  from cstr_take_no_NUL[OF this l] m show "ci_match_at t (cstr s) 0"
    by (simp add: ci_match_at_def)
qed

lemma ci_match_at_drop: "t \<noteq> [] \<Longrightarrow> ci_match_at t (drop i s) 0 \<longleftrightarrow> ci_match_at t s i"
  by (cases t) (auto simp: ci_match_at_def)

lemma marker_test:
  "strncasecmp (drop i buf) ''<contactinfo>'' 13 = 0 \<longleftrightarrow> ci_match_at ''<contactinfo>'' buf i"
proof -
  have "strncasecmp (drop i buf) ''<contactinfo>'' (length ''<contactinfo>'') = 0
          \<longleftrightarrow> ci_match_at ''<contactinfo>'' (cstr (drop i buf)) 0"
    by (rule ci_match_at_0[OF marker_props(1)])
  also have "\<dots> \<longleftrightarrow> ci_match_at ''<contactinfo>'' (drop i buf) 0"
    by (rule ci_match_at_cstr_0[OF marker_props(1)])
  also have "\<dots> \<longleftrightarrow> ci_match_at ''<contactinfo>'' buf i"
    by (rule ci_match_at_drop) simp
  finally show ?thesis by (simp only: marker_props(2))
qed

lemma find_contactinfo_iff:
  "find_contactinfo buf i \<longleftrightarrow> (\<exists>k\<ge>i. ci_match_at ''<contactinfo>'' buf k)"
proof (induction buf i rule: find_contactinfo.induct)
  case (1 buf i)
  show ?case
  proof (cases "i + 13 \<le> length buf")
    case False
    then have "\<not> find_contactinfo buf i" by (subst find_contactinfo.simps) simp
    moreover have "\<not> (\<exists>k\<ge>i. ci_match_at ''<contactinfo>'' buf k)"
      using False by (auto simp: ci_match_at_def)
    ultimately show ?thesis by simp
  next
    case True
    show ?thesis
    proof (cases "ci_match_at ''<contactinfo>'' buf i")
      case m: True
      then have "find_contactinfo buf i"
        using True by (subst find_contactinfo.simps) (simp add: marker_test)
      with m show ?thesis by auto
    next
      case m: False
      then have "find_contactinfo buf i = find_contactinfo buf (i + 1)"
        using True by (subst find_contactinfo.simps) (simp add: marker_test)
      also have "\<dots> \<longleftrightarrow> (\<exists>k\<ge>i + 1. ci_match_at ''<contactinfo>'' buf k)"
        using "1.IH" True m by (simp add: marker_test)
      also have "\<dots> \<longleftrightarrow> (\<exists>k\<ge>i. ci_match_at ''<contactinfo>'' buf k)"
        using m by (metis Suc_eq_plus1 Suc_leD Suc_leI le_neq_implies_less)
      finally show ?thesis .
    qed
  qed
qed

lemma find_contactinfo_occurs: "find_contactinfo buf 0 \<longleftrightarrow> occurs ''<contactinfo>'' buf"
  by (simp add: find_contactinfo_iff occurs_iff)

lemma peek_cstr: "peek b \<noteq> NUL \<longleftrightarrow> cstr b \<noteq> []"
  by (cases b) (simp_all add: peek_def cstr_Cons)

lemma strcasecmp_eq0:
  "strcasecmp s t = 0 \<longleftrightarrow> map tolower (cstr s) = map tolower (cstr t)"
proof (induction s arbitrary: t)
  case Nil
  show ?case by (cases t) (auto simp: peek_def cstr_Cons)
next
  case (Cons c s)
  show ?case
  proof (cases t)
    case Nil
    then show ?thesis by (auto simp: peek_def cstr_Cons Let_def)
  next
    case (Cons d t')
    then show ?thesis using Cons.IH[of t']
      by (auto simp: peek_def cstr_Cons Let_def)
  qed
qed

lemma cstr_true: "cstr ''true'' = ''true''"
  by (simp add: cstr_def NUL_def)

lemma trigger_iff: "has_mult f \<and> is_new f \<longleftrightarrow> trigger f"
  by (simp add: has_mult_def is_new_def trigger_def peek_cstr strcasecmp_eq0 cstr_true)

lemma get_into_safe:
  assumes "1 \<le> n"
  shows "\<exists>b. get_into xml tag n = Some b \<and> length b = n"
proof -
  have "length (char_array n) = n" by (simp add: char_array_def)
  from xgf_safe[OF this assms, of xml tag] show ?thesis
    by (auto simp: get_into_def)
qed

lemma extract_fields_safe: "\<exists>f. extract_fields xml = Some f"
proof -
  obtain c where c: "get_into xml ''call'' 64 = Some c" using get_into_safe[of 64] by auto
  obtain b where b: "get_into xml ''band'' 32 = Some b" using get_into_safe[of 32] by auto
  obtain m where m: "get_into xml ''mode'' 16 = Some m" using get_into_safe[of 16] by auto
  obtain m1 where m1: "get_into xml ''mult1'' 64 = Some m1" using get_into_safe[of 64] by auto
  obtain m2 where m2: "get_into xml ''mult2'' 64 = Some m2" using get_into_safe[of 64] by auto
  obtain m3 where m3: "get_into xml ''mult3'' 64 = Some m3" using get_into_safe[of 64] by auto
  obtain nq where nq: "get_into xml ''newqso'' 16 = Some nq" using get_into_safe[of 16] by auto
  obtain xq where xq: "get_into xml ''xqso'' 16 = Some xq" using get_into_safe[of 16] by auto
  show ?thesis unfolding extract_fields_def c b m m1 m2 m3 nq xq by simp
qed

lemma process_datagram_rejected:
  "\<not> occurs ''<contactinfo>'' buf \<Longrightarrow> process_datagram buf src ev = Some []"
  by (simp add: process_datagram_def find_contactinfo_occurs)

lemma process_datagram_no_memory:
  "occurs ''<contactinfo>'' buf \<Longrightarrow> \<not> malloc_ok ev \<Longrightarrow>
     process_datagram buf src ev = Some [Perror ''malloc'']"
  by (simp add: process_datagram_def find_contactinfo_occurs)

lemma process_datagram_processed:
  "occurs ''<contactinfo>'' buf \<Longrightarrow> malloc_ok ev \<Longrightarrow> extract_fields (buf @ [NUL]) = Some f \<Longrightarrow>
     process_datagram buf src ev = Some (map Call_xml_get_field field_names @ report f src ev)"
  by (simp add: process_datagram_def find_contactinfo_occurs)

lemma process_datagram_safe: "\<exists>tr. process_datagram buf src ev = Some tr"
proof -
  obtain f where "extract_fields (buf @ [NUL]) = Some f" using extract_fields_safe by blast
  then show ?thesis by (simp add: process_datagram_def)
qed

lemma marker_not_log_line: "mult_marker \<noteq> log_line src f"
proof
  assume "mult_marker = log_line src f"
  then have "hd mult_marker = hd (log_line src f)" by simp
  then show False by (simp add: mult_marker_def log_line_def)
qed

lemma marker_not_timestamp: "mult_marker \<noteq> ''['' @ t @ ''] ''"
proof
  assume "mult_marker = ''['' @ t @ ''] ''"
  then have "hd mult_marker = hd (''['' @ t @ ''] '')" by simp
  then show False by (simp add: mult_marker_def)
qed

lemma marker_not_newline: "mult_marker \<noteq> newline"
  by (simp add: mult_marker_def newline_def)

lemma report_trigger:
  "report f src ev =
     print_timestamp ev @ [Stdout (log_line src f)] @
     (if trigger f then [Stdout mult_marker, Fflush, Call_play_sound] @ play_sound ev else []) @
     [Stdout newline, Fflush]"
  unfolding report_def trigger_iff ..

lemma marker_in_trace:
  "Stdout mult_marker \<in> set (map Call_xml_get_field field_names @ report f src ev) \<longleftrightarrow> trigger f"
  using marker_not_log_line[of src f] marker_not_timestamp[of "now ev"] marker_not_newline
  by (auto simp: report_trigger print_timestamp_def play_sound_def Let_def)

lemma play_sound_in_trace:
  "Call_play_sound \<in> set (map Call_xml_get_field field_names @ report f src ev) \<longleftrightarrow> trigger f"
  by (auto simp: report_trigger print_timestamp_def play_sound_def Let_def)

section \<open>The datagram processor: claims\<close>

text \<open>
  C2. A datagram in which \<open><contactinfo>\<close> occurs nowhere (letter case ignored, all
  received bytes looked at) leaves an empty trace: no output, no call of
  \<open>xml_get_field\<close>, no call of \<open>play_sound\<close>.
\<close>

theorem process_datagram_without_marker:
  assumes "\<not> occurs ''<contactinfo>'' buf"
  shows "process_datagram buf src ev = Some []"
  using assms by (rule process_datagram_rejected)

theorem process_datagram_without_marker_witness:
  "\<not> occurs ''<contactinfo>'' ''hello world''
   \<and> process_datagram ''hello world'' ''192.168.1.5''
        \<lparr>malloc_ok = True, now = ''2024-06-01 12:00:00'', system_rc = 0\<rparr> = Some []"
proof -
  have h: "\<not> occurs ''<contactinfo>'' ''hello world''" by code_simp
  from process_datagram_without_marker[OF h] show ?thesis using h by blast
qed

text \<open>
  C1. For a datagram with the marker (and memory for its copy), the marker
  \<open>*** MULT\<close> is printed and \<open>play_sound\<close> is called, after the log line and before the
  newline, exactly when one of \<open>mult1\<close>, \<open>mult2\<close>, \<open>mult3\<close> holds a non-empty string and
  \<open>newqso\<close> holds \<open>true\<close> in any letter case; otherwise neither happens.
\<close>

theorem trigger_rule:
  assumes "occurs ''<contactinfo>'' buf" "malloc_ok ev"
  shows "\<exists>f tr. extract_fields (buf @ [NUL]) = Some f
           \<and> process_datagram buf src ev = Some tr
           \<and> tr = map Call_xml_get_field field_names @ print_timestamp ev @
                  [Stdout (log_line src f)] @
                  (if trigger f then [Stdout mult_marker, Fflush, Call_play_sound] @ play_sound ev
                   else []) @
                  [Stdout newline, Fflush]
           \<and> (Stdout mult_marker \<in> set tr \<longleftrightarrow> trigger f)
           \<and> (Call_play_sound \<in> set tr \<longleftrightarrow> trigger f)"
proof -
  obtain f where f: "extract_fields (buf @ [NUL]) = Some f"
    using extract_fields_safe by blast
  let ?tr = "map Call_xml_get_field field_names @ report f src ev"
  have "process_datagram buf src ev = Some ?tr"
    using assms f by (rule process_datagram_processed)
  moreover have "?tr = map Call_xml_get_field field_names @ print_timestamp ev @
                  [Stdout (log_line src f)] @
                  (if trigger f then [Stdout mult_marker, Fflush, Call_play_sound] @ play_sound ev
                   else []) @
                  [Stdout newline, Fflush]"
    by (simp only: report_trigger)
  moreover have "Stdout mult_marker \<in> set ?tr \<longleftrightarrow> trigger f" by (rule marker_in_trace)
  moreover have "Call_play_sound \<in> set ?tr \<longleftrightarrow> trigger f" by (rule play_sound_in_trace)
  ultimately show ?thesis using f by blast
qed

theorem trigger_rule_witness:
  "occurs ''<contactinfo>'' ''<contactinfo><mult1>10</mult1><newqso>TRUE</newqso>''
   \<and> malloc_ok \<lparr>malloc_ok = True, now = ''2024-06-01 12:00:00'', system_rc = 0\<rparr>
   \<and> (\<exists>f tr. extract_fields (''<contactinfo><mult1>10</mult1><newqso>TRUE</newqso>'' @ [NUL]) = Some f
         \<and> trigger f
         \<and> process_datagram ''<contactinfo><mult1>10</mult1><newqso>TRUE</newqso>'' ''192.168.1.5''
              \<lparr>malloc_ok = True, now = ''2024-06-01 12:00:00'', system_rc = 0\<rparr> = Some tr
         \<and> Stdout mult_marker \<in> set tr \<and> Call_play_sound \<in> set tr)"
proof -
  let ?d = "''<contactinfo><mult1>10</mult1><newqso>TRUE</newqso>''"
  let ?ev = "\<lparr>malloc_ok = True, now = ''2024-06-01 12:00:00'', system_rc = 0\<rparr>"
  have h1: "occurs ''<contactinfo>'' ?d" by code_simp
  have h2: "malloc_ok ?ev" by simp
  have t: "case extract_fields (?d @ [NUL]) of None \<Rightarrow> False | Some f \<Rightarrow> trigger f"
    by code_simp
  from trigger_rule[OF h1 h2, of "''192.168.1.5''"] obtain f tr where
    r: "extract_fields (?d @ [NUL]) = Some f"
       "process_datagram ?d ''192.168.1.5'' ?ev = Some tr"
       "Stdout mult_marker \<in> set tr \<longleftrightarrow> trigger f"
       "Call_play_sound \<in> set tr \<longleftrightarrow> trigger f"
    by blast
  from t r(1) have "trigger f" by simp
  with r h1 h2 show ?thesis by blast
qed

section \<open>Missing fields\<close>

lemma cstr_snoc_NUL: "cstr (b @ [NUL]) = cstr b"
  unfolding cstr_def by (induction b) auto

lemma cstr_prefix_NUL: "NUL \<notin> set pre \<Longrightarrow> cstr (pre @ NUL # rest) = pre"
  by (rule cstr_append_NUL)

lemma extraction_fails_returns_0:
  assumes "NUL \<notin> set tag" "length tag \<le> 60" "extraction_fails tag (cstr xml)"
  shows "xml_get_field xml tag buf buflen = Some (0, buf)"
proof -
  have ot: "open_tag_of tag = ''<'' @ tag @ ''>''"
    using assms(1,2) by (intro open_tag_short) auto
  have ct: "close_tag_of tag = ''</'' @ tag @ ''>''"
    using assms(1,2) by (rule close_tag_short)
  from assms(3) consider
      (a) "\<not> occurs (open_tag_of tag) (cstr xml)"
    | (b) i where "first_match (open_tag_of tag) (cstr xml) i"
        "\<not> occurs (close_tag_of tag) (drop (i + length (open_tag_of tag)) (cstr xml))"
    unfolding extraction_fails_def ot ct by blast
  then show ?thesis
  proof cases
    case a
    then have "\<forall>k. \<not> ci_match_at (open_tag_of tag) (cstr xml) k"
      using not_occurs_iff by blast
    then show ?thesis by (rule xgf_no_open)
  next
    case (b i)
    from b(2) have "\<forall>k. \<not> ci_match_at (close_tag_of tag)
           (drop (i + length (open_tag_of tag)) (cstr xml)) k"
      using not_occurs_iff by blast
    with b(1) show ?thesis by (rule xgf_no_close)
  qed
qed

lemma extract_fields_Some:
  assumes "extract_fields xml = Some f"
  shows "get_into xml ''call'' 64 = Some (call f)" "get_into xml ''band'' 32 = Some (band f)"
    "get_into xml ''mode'' 16 = Some (mode f)" "get_into xml ''mult1'' 64 = Some (mult1 f)"
    "get_into xml ''mult2'' 64 = Some (mult2 f)" "get_into xml ''mult3'' 64 = Some (mult3 f)"
    "get_into xml ''newqso'' 16 = Some (newqso f)" "get_into xml ''xqso'' 16 = Some (xqso f)"
proof -
  obtain c where c: "get_into xml ''call'' 64 = Some c" using get_into_safe[of 64] by auto
  obtain b where b: "get_into xml ''band'' 32 = Some b" using get_into_safe[of 32] by auto
  obtain m where m: "get_into xml ''mode'' 16 = Some m" using get_into_safe[of 16] by auto
  obtain m1 where m1: "get_into xml ''mult1'' 64 = Some m1" using get_into_safe[of 64] by auto
  obtain m2 where m2: "get_into xml ''mult2'' 64 = Some m2" using get_into_safe[of 64] by auto
  obtain m3 where m3: "get_into xml ''mult3'' 64 = Some m3" using get_into_safe[of 64] by auto
  obtain nq where nq: "get_into xml ''newqso'' 16 = Some nq" using get_into_safe[of 16] by auto
  obtain xq where xq: "get_into xml ''xqso'' 16 = Some xq" using get_into_safe[of 16] by auto
  have "extract_fields xml = Some \<lparr>call = c, band = b, mode = m, mult1 = m1, mult2 = m2,
          mult3 = m3, newqso = nq, xqso = xq\<rparr>"
    unfolding extract_fields_def c b m m1 m2 m3 nq xq by simp
  with assms have f: "f = \<lparr>call = c, band = b, mode = m, mult1 = m1, mult2 = m2,
          mult3 = m3, newqso = nq, xqso = xq\<rparr>" by simp
  show "get_into xml ''call'' 64 = Some (call f)" "get_into xml ''band'' 32 = Some (band f)"
    "get_into xml ''mode'' 16 = Some (mode f)" "get_into xml ''mult1'' 64 = Some (mult1 f)"
    "get_into xml ''mult2'' 64 = Some (mult2 f)" "get_into xml ''mult3'' 64 = Some (mult3 f)"
    "get_into xml ''newqso'' 16 = Some (newqso f)" "get_into xml ''xqso'' 16 = Some (xqso f)"
    unfolding f by (simp_all add: c b m m1 m2 m3 nq xq)
qed

lemma printed_cases:
  assumes "(tag, n, sel, label, w) \<in> set printed"
  obtains "tag = ''call''" "n = 64" "sel = call" "label = '' call=''" "w = 8"
    | "tag = ''band''" "n = 32" "sel = band" "label = '' band=''" "w = 3"
    | "tag = ''mode''" "n = 16" "sel = mode" "label = '' mode=''" "w = 3"
    | "tag = ''mult1''" "n = 64" "sel = mult1" "label = '' mult1=''" "w = 2"
    | "tag = ''mult2''" "n = 64" "sel = mult2" "label = ''  mult2=''" "w = 2"
    | "tag = ''mult3''" "n = 64" "sel = mult3" "label = ''  mult3=''" "w = 2"
    | "tag = ''newqso''" "n = 16" "sel = newqso" "label = '' newqso=''" "w = 5"
proof -
  have "set printed = {(''call'', 64, call, '' call='', 8),
      (''band'', 32, band, '' band='', 3),
      (''mode'', 16, mode, '' mode='', 3),
      (''mult1'', 64, mult1, '' mult1='', 2),
      (''mult2'', 64, mult2, ''  mult2='', 2),
      (''mult3'', 64, mult3, ''  mult3='', 2),
      (''newqso'', 16, newqso, '' newqso='', 5)}"
    unfolding printed_def by (simp only: list.set)
  with assms have "(tag, n, sel, label, w) = (''call'', 64, call, '' call='', 8)
      \<or> (tag, n, sel, label, w) = (''band'', 32, band, '' band='', 3)
      \<or> (tag, n, sel, label, w) = (''mode'', 16, mode, '' mode='', 3)
      \<or> (tag, n, sel, label, w) = (''mult1'', 64, mult1, '' mult1='', 2)
      \<or> (tag, n, sel, label, w) = (''mult2'', 64, mult2, ''  mult2='', 2)
      \<or> (tag, n, sel, label, w) = (''mult3'', 64, mult3, ''  mult3='', 2)
      \<or> (tag, n, sel, label, w) = (''newqso'', 16, newqso, '' newqso='', 5)"
    by (simp only: insert_iff empty_iff simp_thms)
  then show thesis
    using that by (elim disjE) (simp_all only: prod.inject)
qed

lemma short_tags:
  "NUL \<notin> set ''call''" "NUL \<notin> set ''band''" "NUL \<notin> set ''mode''" "NUL \<notin> set ''mult1''"
  "NUL \<notin> set ''mult2''" "NUL \<notin> set ''mult3''" "NUL \<notin> set ''newqso''" "NUL \<notin> set ''xqso''"
  by (simp_all add: NUL_def)

lemma printed_get_into:
  assumes "extract_fields xml = Some f" "(tag, n, sel, label, w) \<in> set printed"
  shows "get_into xml tag n = Some (sel f) \<and> NUL \<notin> set tag \<and> length tag \<le> 60"
  using assms(2)
proof (cases rule: printed_cases)
  case 1 show ?thesis unfolding 1 using extract_fields_Some(1)[OF assms(1)] short_tags(1) by simp
next
  case 2 show ?thesis unfolding 2 using extract_fields_Some(2)[OF assms(1)] short_tags(2) by simp
next
  case 3 show ?thesis unfolding 3 using extract_fields_Some(3)[OF assms(1)] short_tags(3) by simp
next
  case 4 show ?thesis unfolding 4 using extract_fields_Some(4)[OF assms(1)] short_tags(4) by simp
next
  case 5 show ?thesis unfolding 5 using extract_fields_Some(5)[OF assms(1)] short_tags(5) by simp
next
  case 6 show ?thesis unfolding 6 using extract_fields_Some(6)[OF assms(1)] short_tags(6) by simp
next
  case 7 show ?thesis unfolding 7 using extract_fields_Some(7)[OF assms(1)] short_tags(7) by simp
qed

lemma printed_in_log_line:
  assumes "(tag, n, sel, label, w) \<in> set printed"
  shows "\<exists>pre post. log_line src f = pre @ label @ pad w (or_dash (sel f)) @ post"
  using assms
proof (cases rule: printed_cases)
  case 1
  show ?thesis unfolding 1 log_line_def
    by (rule exI[of _ "''PKT from '' @ pad 15 src"], rule exI) (simp only: append_assoc)
next
  case 2
  show ?thesis unfolding 2 log_line_def
    by (rule exI[of _ "''PKT from '' @ pad 15 src @ '' call='' @ pad 8 (or_dash (call f))"], rule exI)
       (simp only: append_assoc)
next
  case 3
  show ?thesis unfolding 3 log_line_def
    by (rule exI[of _ "''PKT from '' @ pad 15 src @ '' call='' @ pad 8 (or_dash (call f)) @
          '' band='' @ pad 3 (or_dash (band f))"], rule exI) (simp only: append_assoc)
next
  case 4
  show ?thesis unfolding 4 log_line_def
    by (rule exI[of _ "''PKT from '' @ pad 15 src @ '' call='' @ pad 8 (or_dash (call f)) @
          '' band='' @ pad 3 (or_dash (band f)) @ '' mode='' @ pad 3 (or_dash (mode f))"], rule exI)
       (simp only: append_assoc)
next
  case 5
  show ?thesis unfolding 5 log_line_def
    by (rule exI[of _ "''PKT from '' @ pad 15 src @ '' call='' @ pad 8 (or_dash (call f)) @
          '' band='' @ pad 3 (or_dash (band f)) @ '' mode='' @ pad 3 (or_dash (mode f)) @
          '' mult1='' @ pad 2 (or_dash (mult1 f))"], rule exI) (simp only: append_assoc)
next
  case 6
  show ?thesis unfolding 6 log_line_def
    by (rule exI[of _ "''PKT from '' @ pad 15 src @ '' call='' @ pad 8 (or_dash (call f)) @
          '' band='' @ pad 3 (or_dash (band f)) @ '' mode='' @ pad 3 (or_dash (mode f)) @
          '' mult1='' @ pad 2 (or_dash (mult1 f)) @ ''  mult2='' @ pad 2 (or_dash (mult2 f))"], rule exI)
       (simp only: append_assoc)
next
  case 7
  show ?thesis unfolding 7 log_line_def
    by (rule exI[of _ "''PKT from '' @ pad 15 src @ '' call='' @ pad 8 (or_dash (call f)) @
          '' band='' @ pad 3 (or_dash (band f)) @ '' mode='' @ pad 3 (or_dash (mode f)) @
          '' mult1='' @ pad 2 (or_dash (mult1 f)) @ ''  mult2='' @ pad 2 (or_dash (mult2 f)) @
          ''  mult3='' @ pad 2 (or_dash (mult3 f))"], rule exI[of _ "[]"])
       (simp only: append_assoc append_Nil2)
qed

lemma or_dash_empty: "or_dash (char_array n) = ''-''"
  by (cases n) (simp_all add: or_dash_def char_array_def peek_def)

lemma log_line_xqso: "log_line src (f\<lparr>xqso := x\<rparr>) = log_line src f"
  by (simp add: log_line_def)

lemma log_line_in_trace:
  "Stdout (log_line src f) \<in> set (map Call_xml_get_field field_names @ report f src ev)"
  by (simp add: report_def)

text \<open>
  C9 as stated fails for \<open>xqso\<close>, one of the eight fields: it is extracted, but the
  log line has no place for it. On the datagram \<open><contactinfo>\<close> the extraction of
  \<open>xqso\<close> fails, and the log line shows seven dashes and no \<open>xqso\<close>.
\<close>

theorem xqso_is_not_printed:
  "extraction_fails ''xqso'' (cstr (''<contactinfo>'' @ [NUL]))
   \<and> xml_get_field (''<contactinfo>'' @ [NUL]) ''xqso'' (char_array 16) 16 = Some (0, char_array 16)
   \<and> process_datagram ''<contactinfo>'' ''192.168.1.5''
        \<lparr>malloc_ok = True, now = ''2024-06-01 12:00:00'', system_rc = 0\<rparr>
      = Some [Call_xml_get_field ''call'', Call_xml_get_field ''band'', Call_xml_get_field ''mode'',
              Call_xml_get_field ''mult1'', Call_xml_get_field ''mult2'', Call_xml_get_field ''mult3'',
              Call_xml_get_field ''newqso'', Call_xml_get_field ''xqso'',
              Stdout ''[2024-06-01 12:00:00] '',
              Stdout ''PKT from 192.168.1.5     call=-        band=-   mode=-   mult1=-   mult2=-   mult3=-  newqso=-    '',
              Stdout newline, Fflush]
   \<and> \<not> occurs ''xqso''
         ''PKT from 192.168.1.5     call=-        band=-   mode=-   mult1=-   mult2=-   mult3=-  newqso=-    ''"
  by code_simp

text \<open>
  C9, amended. In a processed datagram, for each of the seven printed fields whose
  extraction fails, \<open>xml_get_field\<close> returns 0 and leaves the destination as it was
  initialised, and the log line shows \<open>-\<close> after the label of the field. For \<open>xqso\<close>
  the same holds of the destination; the log line does not depend on it.
\<close>

theorem failed_extraction_prints_dash:
  assumes "occurs ''<contactinfo>'' buf" "malloc_ok ev"
  shows "\<exists>f tr. extract_fields (buf @ [NUL]) = Some f
           \<and> process_datagram buf src ev = Some tr \<and> Stdout (log_line src f) \<in> set tr
           \<and> (\<forall>(tag, n, sel, label, w) \<in> set printed.
                 extraction_fails tag (cstr buf) \<longrightarrow>
                   xml_get_field (buf @ [NUL]) tag (char_array n) n = Some (0, char_array n)
                   \<and> sel f = char_array n
                   \<and> (\<exists>pre post. log_line src f = pre @ label @ pad w ''-'' @ post))
           \<and> (extraction_fails ''xqso'' (cstr buf) \<longrightarrow>
                 xml_get_field (buf @ [NUL]) ''xqso'' (char_array 16) 16 = Some (0, char_array 16)
                 \<and> xqso f = char_array 16)
           \<and> (\<forall>x. log_line src (f\<lparr>xqso := x\<rparr>) = log_line src f)"
proof -
  obtain f where f: "extract_fields (buf @ [NUL]) = Some f"
    using extract_fields_safe by blast
  let ?tr = "map Call_xml_get_field field_names @ report f src ev"
  have tr: "process_datagram buf src ev = Some ?tr"
    using assms f by (rule process_datagram_processed)
  have in_tr: "Stdout (log_line src f) \<in> set ?tr" by (rule log_line_in_trace)
  have pr: "\<forall>(tag, n, sel, label, w) \<in> set printed.
                 extraction_fails tag (cstr buf) \<longrightarrow>
                   xml_get_field (buf @ [NUL]) tag (char_array n) n = Some (0, char_array n)
                   \<and> sel f = char_array n
                   \<and> (\<exists>pre post. log_line src f = pre @ label @ pad w ''-'' @ post)"
  proof (intro ballI, clarify)
    fix tag n sel label w
    assume mem: "(tag, n, sel, label, w) \<in> set printed"
      and fails: "extraction_fails tag (cstr buf)"
    from printed_get_into[OF f mem] have g: "get_into (buf @ [NUL]) tag n = Some (sel f)"
      and t: "NUL \<notin> set tag" "length tag \<le> 60" by simp_all
    have r: "xml_get_field (buf @ [NUL]) tag (char_array n) n = Some (0, char_array n)"
      using fails by (intro extraction_fails_returns_0[OF t]) (simp only: cstr_snoc_NUL)
    with g have s: "sel f = char_array n" by (simp add: get_into_def)
    from printed_in_log_line[OF mem, of src f] s
    have "\<exists>pre post. log_line src f = pre @ label @ pad w ''-'' @ post"
      by (simp only: or_dash_empty)
    with r s show "xml_get_field (buf @ [NUL]) tag (char_array n) n = Some (0, char_array n)
                   \<and> sel f = char_array n
                   \<and> (\<exists>pre post. log_line src f = pre @ label @ pad w ''-'' @ post)"
      by blast
  qed
  have xq: "extraction_fails ''xqso'' (cstr buf) \<longrightarrow>
                 xml_get_field (buf @ [NUL]) ''xqso'' (char_array 16) 16 = Some (0, char_array 16)
                 \<and> xqso f = char_array 16"
  proof
    assume fails: "extraction_fails ''xqso'' (cstr buf)"
    have r: "xml_get_field (buf @ [NUL]) ''xqso'' (char_array 16) 16 = Some (0, char_array 16)"
      using fails by (intro extraction_fails_returns_0[OF short_tags(8)]) (simp_all only: cstr_snoc_NUL, simp)
    with extract_fields_Some(8)[OF f] have "xqso f = char_array 16" by (simp add: get_into_def)
    with r show "xml_get_field (buf @ [NUL]) ''xqso'' (char_array 16) 16 = Some (0, char_array 16)
                 \<and> xqso f = char_array 16" by blast
  qed
  have "\<forall>x. log_line src (f\<lparr>xqso := x\<rparr>) = log_line src f"
    by (simp only: log_line_xqso simp_thms)
  with f tr in_tr pr xq show ?thesis by blast
qed

theorem failed_extraction_prints_dash_witness:
  "occurs ''<contactinfo>'' ''<contactinfo><call>W1AW''
   \<and> malloc_ok \<lparr>malloc_ok = True, now = ''2024-06-01 12:00:00'', system_rc = 0\<rparr>
   \<and> (''call'', 64, call, '' call='', 8) \<in> set printed
   \<and> extraction_fails ''call'' (cstr ''<contactinfo><call>W1AW'')
   \<and> extraction_fails ''xqso'' (cstr ''<contactinfo><call>W1AW'')
   \<and> (\<exists>f tr. process_datagram ''<contactinfo><call>W1AW'' ''192.168.1.5''
                \<lparr>malloc_ok = True, now = ''2024-06-01 12:00:00'', system_rc = 0\<rparr> = Some tr
         \<and> Stdout (log_line ''192.168.1.5'' f) \<in> set tr
         \<and> call f = char_array 64 \<and> xqso f = char_array 16
         \<and> (\<exists>pre post. log_line ''192.168.1.5'' f = pre @ '' call='' @ pad 8 ''-'' @ post))"
proof -
  let ?d = "''<contactinfo><call>W1AW''"
  let ?ev = "\<lparr>malloc_ok = True, now = ''2024-06-01 12:00:00'', system_rc = 0\<rparr>"
  have h1: "occurs ''<contactinfo>'' ?d" by code_simp
  have h2: "malloc_ok ?ev" by simp
  have h3: "(''call'', 64, call, '' call='', 8) \<in> set printed" by (simp add: printed_def)
  have h4: "extraction_fails ''call'' (cstr ?d)" by code_simp
  have h5: "extraction_fails ''xqso'' (cstr ?d)" by code_simp
  from failed_extraction_prints_dash[OF h1 h2, of "''192.168.1.5''"] obtain f tr where
    r: "process_datagram ?d ''192.168.1.5'' ?ev = Some tr"
       "Stdout (log_line ''192.168.1.5'' f) \<in> set tr"
       "\<forall>(tag, n, sel, label, w) \<in> set printed.
                 extraction_fails tag (cstr ?d) \<longrightarrow>
                   xml_get_field (?d @ [NUL]) tag (char_array n) n = Some (0, char_array n)
                   \<and> sel f = char_array n
                   \<and> (\<exists>pre post. log_line ''192.168.1.5'' f = pre @ label @ pad w ''-'' @ post)"
       "extraction_fails ''xqso'' (cstr ?d) \<longrightarrow>
                 xml_get_field (?d @ [NUL]) ''xqso'' (char_array 16) 16 = Some (0, char_array 16)
                 \<and> xqso f = char_array 16"
    by blast
  from r(3) h3 h4 have "call f = char_array 64
     \<and> (\<exists>pre post. log_line ''192.168.1.5'' f = pre @ '' call='' @ pad 8 ''-'' @ post)"
    by fast
  moreover from r(4) h5 have "xqso f = char_array 16" by simp
  ultimately show ?thesis using r(1,2) h1 h2 h3 h4 h5 by blast
qed

section \<open>Embedded NUL bytes\<close>

lemma copy_trim_cong:
  assumes "take len src = take len src'" "len \<le> length src" "len \<le> length src'"
  shows "copy_trim buf src len = copy_trim buf src' len"
proof -
  have "memcpy buf src len = memcpy buf src' len"
    using assms by (simp add: memcpy_def)
  then show ?thesis by (simp only: copy_trim_def)
qed

lemma copy_trim_overrun: "length buf < len \<Longrightarrow> copy_trim buf src len = None"
  by (simp add: copy_trim_def memcpy_def)

lemma cstr_cstr: "cstr (cstr s) = cstr s"
  by (rule cstr_id[OF cstr_no_NUL])

text \<open>\<open>xml_get_field\<close> sees of the document only the bytes before its first NUL.\<close>

lemma xml_get_field_cstr:
  assumes "length buf = buflen"
  shows "xml_get_field xml tag buf buflen = xml_get_field (cstr xml) tag buf buflen"
proof (cases rule: xgf_cases[of tag xml])
  case no_open
  have "\<forall>k. \<not> ci_match_at (open_tag_of tag) (cstr (cstr xml)) k"
    unfolding cstr_cstr by (rule no_open)
  then show ?thesis using xgf_no_open[OF no_open] xgf_no_open[of tag "cstr xml"] by simp
next
  case (no_close i)
  have "xml_get_field (cstr xml) tag buf buflen = Some (0, buf)"
    by (rule xgf_no_close[of tag "cstr xml" i]; unfold cstr_cstr) (rule no_close)+
  then show ?thesis using xgf_no_close[OF no_close] by simp
next
  case (found i j)
  let ?st = "i + length (open_tag_of tag)"
  let ?len = "if buflen \<le> j then size_t_sub buflen 1 else j"
  have 1: "xml_get_field xml tag buf buflen = copy_trim buf (drop ?st xml) ?len"
    using found by (rule xgf_found)
  have 2: "xml_get_field (cstr xml) tag buf buflen = copy_trim buf (drop ?st (cstr xml)) ?len"
    by (rule xgf_found[of tag "cstr xml" i j]; unfold cstr_cstr) (rule found)+
  show ?thesis
  proof (cases "buflen = 0")
    case True
    then have "length buf < ?len" using assms by (simp add: size_t_sub_def)
    then show ?thesis unfolding 1 2 by (simp only: copy_trim_overrun)
  next
    case False
    have "?st \<le> length (cstr xml)" using found(1) by (rule first_match_bound)
    then have c: "cstr (drop ?st xml) = drop ?st (cstr xml)" by (rule cstr_drop)
    have jb: "j \<le> length (drop ?st (cstr xml))"
      using first_match_bound[OF found(2)] by simp
    have lj: "?len \<le> j" using False by (auto simp: size_t_sub_def)
    have lb: "?len \<le> length (cstr (drop ?st xml))" using jb lj unfolding c by linarith
    have tk: "take ?len (drop ?st xml) = take ?len (drop ?st (cstr xml))"
      using take_cstr[OF lb] unfolding c .
    have a: "?len \<le> length (drop ?st xml)"
      using lb length_cstr_le[of "drop ?st xml"] by linarith
    have b: "?len \<le> length (drop ?st (cstr xml))" using lb unfolding c .
    show ?thesis unfolding 1 2 by (rule copy_trim_cong[OF tk a b])
  qed
qed

lemma extract_fields_cstr: "extract_fields xml = extract_fields (cstr xml)"
proof -
  have "\<And>tag n. get_into xml tag n = get_into (cstr xml) tag n"
    unfolding get_into_def by (subst xml_get_field_cstr) (simp_all add: char_array_def)
  then show ?thesis by (simp only: extract_fields_def)
qed

lemma occurs_append: "occurs t rest \<Longrightarrow> occurs t (pre @ rest)"
proof -
  assume "occurs t rest"
  then obtain k where k: "ci_match_at t rest k" using occurs_iff by blast
  then have "ci_match_at t (pre @ rest) (length pre + k)"
    by (simp add: ci_match_at_def)
  then show ?thesis using occurs_iff by blast
qed

lemma occurs_Cons: "occurs t rest \<Longrightarrow> occurs t (c # rest)"
  using occurs_append[of t rest "[c]"] by simp

lemma get_into_absent:
  assumes "NUL \<notin> set tag" "length tag \<le> 60" "\<not> occurs (''<'' @ tag @ ''>'') (cstr xml)"
  shows "get_into xml tag n = Some (char_array n)"
proof -
  have "extraction_fails tag (cstr xml)" using assms(3) by (simp add: extraction_fails_def)
  from extraction_fails_returns_0[OF assms(1,2) this] show ?thesis
    by (simp add: get_into_def)
qed

lemma extract_fields_absent:
  assumes "\<forall>tag \<in> set field_names. \<not> occurs (''<'' @ tag @ ''>'') (cstr xml)"
  shows "extract_fields xml = Some no_fields"
proof -
  have n: "\<And>tag. tag \<in> set field_names \<Longrightarrow> \<not> occurs (''<'' @ tag @ ''>'') (cstr xml)"
    using assms by blast
  have "get_into xml ''call'' 64 = Some (char_array 64)"
    by (rule get_into_absent[OF short_tags(1)]) (simp, rule n, simp add: field_names_def)
  moreover have "get_into xml ''band'' 32 = Some (char_array 32)"
    by (rule get_into_absent[OF short_tags(2)]) (simp, rule n, simp add: field_names_def)
  moreover have "get_into xml ''mode'' 16 = Some (char_array 16)"
    by (rule get_into_absent[OF short_tags(3)]) (simp, rule n, simp add: field_names_def)
  moreover have "get_into xml ''mult1'' 64 = Some (char_array 64)"
    by (rule get_into_absent[OF short_tags(4)]) (simp, rule n, simp add: field_names_def)
  moreover have "get_into xml ''mult2'' 64 = Some (char_array 64)"
    by (rule get_into_absent[OF short_tags(5)]) (simp, rule n, simp add: field_names_def)
  moreover have "get_into xml ''mult3'' 64 = Some (char_array 64)"
    by (rule get_into_absent[OF short_tags(6)]) (simp, rule n, simp add: field_names_def)
  moreover have "get_into xml ''newqso'' 16 = Some (char_array 16)"
    by (rule get_into_absent[OF short_tags(7)]) (simp, rule n, simp add: field_names_def)
  moreover have "get_into xml ''xqso'' 16 = Some (char_array 16)"
    by (rule get_into_absent[OF short_tags(8)]) (simp, rule n, simp add: field_names_def)
  ultimately show ?thesis by (simp add: extract_fields_def no_fields_def)
qed

lemma peek_char_array: "peek (char_array n) = NUL"
  by (cases n) (simp_all add: peek_def char_array_def)

lemma not_trigger_no_fields: "\<not> (has_mult no_fields \<and> is_new no_fields)"
  by (simp add: has_mult_def no_fields_def peek_char_array)

lemma pad_dash:
  "pad 8 ''-'' = ''-       ''" "pad 3 ''-'' = ''-  ''" "pad 2 ''-'' = ''- ''" "pad 5 ''-'' = ''-    ''"
  by code_simp+

lemma log_line_no_fields:
  "log_line src no_fields = ''PKT from '' @ pad 15 src @
     '' call=-        band=-   mode=-   mult1=-   mult2=-   mult3=-  newqso=-    ''"
  by (simp add: log_line_def no_fields_def or_dash_empty pad_dash)

text \<open>
  C10. The marker check looks at every received byte, the extractor only at the bytes
  before the first NUL. A datagram with its marker after an embedded NUL and no
  opening tag before it is logged, with every field shown as \<open>-\<close> and no sound.
\<close>

theorem embedded_nul_hides_fields:
  assumes "NUL \<notin> set pre"
      and "occurs ''<contactinfo>'' rest"
      and "\<forall>tag \<in> set field_names. \<not> occurs (''<'' @ tag @ ''>'') pre"
      and "malloc_ok ev"
  shows "find_contactinfo (pre @ NUL # rest) 0
       \<and> extract_fields ((pre @ NUL # rest) @ [NUL]) = extract_fields (pre @ [NUL])
       \<and> process_datagram (pre @ NUL # rest) src ev =
           Some (map Call_xml_get_field field_names @ print_timestamp ev @
                 [Stdout (''PKT from '' @ pad 15 src @
                    '' call=-        band=-   mode=-   mult1=-   mult2=-   mult3=-  newqso=-    ''),
                  Stdout newline, Fflush])"
proof -
  let ?d = "pre @ NUL # rest"
  have oc: "occurs ''<contactinfo>'' ?d"
    using assms(2) by (intro occurs_append occurs_Cons)
  then have 1: "find_contactinfo ?d 0" by (simp only: find_contactinfo_occurs)
  have c1: "cstr (?d @ [NUL]) = pre"
    using cstr_append_NUL[OF assms(1), of "rest @ [NUL]"] by simp
  have c2: "cstr (pre @ [NUL]) = pre"
    using cstr_append_NUL[OF assms(1), of "[]"] by simp
  have 2: "extract_fields (?d @ [NUL]) = extract_fields (pre @ [NUL])"
    using extract_fields_cstr[of "?d @ [NUL]"] extract_fields_cstr[of "pre @ [NUL]"]
    by (simp only: c1 c2)
  have "\<forall>tag \<in> set field_names. \<not> occurs (''<'' @ tag @ ''>'') (cstr (?d @ [NUL]))"
    unfolding c1 by (rule assms(3))
  then have f: "extract_fields (?d @ [NUL]) = Some no_fields"
    by (rule extract_fields_absent)
  have "process_datagram ?d src ev =
          Some (map Call_xml_get_field field_names @ report no_fields src ev)"
    using oc assms(4) f by (rule process_datagram_processed)
  moreover have "report no_fields src ev = print_timestamp ev @
                 [Stdout (''PKT from '' @ pad 15 src @
                    '' call=-        band=-   mode=-   mult1=-   mult2=-   mult3=-  newqso=-    ''),
                  Stdout newline, Fflush]"
    using not_trigger_no_fields by (simp add: report_def log_line_no_fields)
  ultimately show ?thesis using 1 2 by simp
qed

theorem embedded_nul_hides_fields_witness:
  "NUL \<notin> set ''abc''
   \<and> occurs ''<contactinfo>'' ''<CONTACTINFO><mult1>x</mult1><newqso>true</newqso>''
   \<and> list_all (\<lambda>tag. \<not> occurs (''<'' @ tag @ ''>'') ''abc'') field_names
   \<and> malloc_ok \<lparr>malloc_ok = True, now = ''2024-06-01 12:00:00'', system_rc = 0\<rparr>
   \<and> process_datagram (''abc'' @ NUL # ''<CONTACTINFO><mult1>x</mult1><newqso>true</newqso>'')
        ''192.168.1.5'' \<lparr>malloc_ok = True, now = ''2024-06-01 12:00:00'', system_rc = 0\<rparr> =
           Some (map Call_xml_get_field field_names @
                 [Stdout ''[2024-06-01 12:00:00] '',
                  Stdout ''PKT from 192.168.1.5     call=-        band=-   mode=-   mult1=-   mult2=-   mult3=-  newqso=-    '',
                  Stdout newline, Fflush])"
proof -
  let ?ev = "\<lparr>malloc_ok = True, now = ''2024-06-01 12:00:00'', system_rc = 0\<rparr>"
  have h1: "NUL \<notin> set ''abc''" by (simp add: NUL_def)
  have h2: "occurs ''<contactinfo>'' ''<CONTACTINFO><mult1>x</mult1><newqso>true</newqso>''"
    by code_simp
  have h3: "\<forall>tag \<in> set field_names. \<not> occurs (''<'' @ tag @ ''>'') ''abc''"
    by code_simp
  have h4: "malloc_ok ?ev" by simp
  have p: "pad 15 ''192.168.1.5'' = ''192.168.1.5    ''" by code_simp
  have h3': "list_all (\<lambda>tag. \<not> occurs (''<'' @ tag @ ''>'') ''abc'') field_names"
    using h3 by (simp only: list_all_iff)
  from embedded_nul_hides_fields[OF h1 h2 h3 h4, of "''192.168.1.5''"]
  show ?thesis using h1 h2 h3' h4 by (simp add: p print_timestamp_def)
qed

section \<open>The listener loop: claims\<close>

lemma listener_loop_safe: "\<exists>tr. listener_loop xs = Some tr"
proof (induction xs)
  case Nil
  show ?case by simp
next
  case (Cons x xs)
  then obtain tr where tr: "listener_loop xs = Some tr" by blast
  obtain r ev where x: "x = (r, ev)" by (cases x)
  show ?case
  proof (cases r)
    case Recv_failed
    then show ?thesis using tr x by simp
  next
    case (Received buf src)
    obtain t where "process_datagram buf src ev = Some t"
      using process_datagram_safe by blast
    then show ?thesis using tr x Received by simp
  qed
qed

lemma listener_loop_append:
  assumes "listener_loop xs = Some a" "listener_loop ys = Some b"
  shows "listener_loop (xs @ ys) = Some (a @ b)"
  using assms(1)
proof (induction xs arbitrary: a)
  case Nil
  then show ?case using assms(2) by simp
next
  case (Cons x xs)
  obtain r ev where x: "x = (r, ev)" by (cases x)
  obtain tr where tr: "listener_loop xs = Some tr" using listener_loop_safe by blast
  note ih = Cons.IH[OF tr]
  show ?case
  proof (cases r)
    case Recv_failed
    with Cons.prems tr x ih show ?thesis by auto
  next
    case (Received buf src)
    obtain t where t: "process_datagram buf src ev = Some t"
      using process_datagram_safe by blast
    with Cons.prems tr x ih Received show ?thesis by auto
  qed
qed

text \<open>
  C8. A failed \<open>recvfrom\<close> is reported and the loop goes on with the next call; a
  datagram with the marker for whose copy \<open>malloc\<close> fails is reported by \<open>perror\<close> alone
  (nothing goes to standard output) and the loop goes on. In both cases the process
  ends up blocked in \<open>recvfrom\<close>, not exited; \<open>a\<close> and \<open>b\<close> are the traces of the
  iterations before and after.
\<close>

theorem recoverable_errors:
  assumes "occurs ''<contactinfo>'' buf" "\<not> malloc_ok ev'"
  shows "\<exists>a b. listener_loop before = Some a \<and> listener_loop after = Some b
          \<and> main True True (before @ (Recv_failed, ev) # after) =
              Some (banner @ listening @ a @ [Perror ''recvfrom''] @ b, Blocked_in_recvfrom)
          \<and> main True True (before @ (Received buf src, ev') # after) =
              Some (banner @ listening @ a @ [Perror ''malloc''] @ b, Blocked_in_recvfrom)"
proof -
  obtain a where a: "listener_loop before = Some a" using listener_loop_safe by blast
  obtain b where b: "listener_loop after = Some b" using listener_loop_safe by blast
  have "listener_loop ((Recv_failed, ev) # after) = Some (Perror ''recvfrom'' # b)"
    using b by simp
  from listener_loop_append[OF a this]
  have 1: "main True True (before @ (Recv_failed, ev) # after) =
              Some (banner @ listening @ a @ [Perror ''recvfrom''] @ b, Blocked_in_recvfrom)"
    by (simp add: main_def)
  have "process_datagram buf src ev' = Some [Perror ''malloc'']"
    using assms by (rule process_datagram_no_memory)
  then have "listener_loop ((Received buf src, ev') # after) = Some ([Perror ''malloc''] @ b)"
    using b by simp
  from listener_loop_append[OF a this]
  have 2: "main True True (before @ (Received buf src, ev') # after) =
              Some (banner @ listening @ a @ [Perror ''malloc''] @ b, Blocked_in_recvfrom)"
    by (simp add: main_def)
  from a b 1 2 show ?thesis by blast
qed

theorem recoverable_errors_witness:
  "occurs ''<contactinfo>'' ''<contactinfo><mult1>10</mult1>''
   \<and> \<not> malloc_ok \<lparr>malloc_ok = False, now = ''2024-06-01 12:00:00'', system_rc = 0\<rparr>
   \<and> main True True
        [(Recv_failed, \<lparr>malloc_ok = True, now = ''2024-06-01 12:00:00'', system_rc = 0\<rparr>),
         (Received ''hello'' ''192.168.1.5'',
            \<lparr>malloc_ok = True, now = ''2024-06-01 12:00:01'', system_rc = 0\<rparr>)]
       = Some (banner @ listening @ [Perror ''recvfrom''], Blocked_in_recvfrom)
   \<and> main True True
        [(Received ''<contactinfo><mult1>10</mult1>'' ''192.168.1.5'',
            \<lparr>malloc_ok = False, now = ''2024-06-01 12:00:00'', system_rc = 0\<rparr>),
         (Received ''hello'' ''192.168.1.5'',
            \<lparr>malloc_ok = True, now = ''2024-06-01 12:00:01'', system_rc = 0\<rparr>)]
       = Some (banner @ listening @ [Perror ''malloc''], Blocked_in_recvfrom)"
proof -
  let ?ev = "\<lparr>malloc_ok = True, now = ''2024-06-01 12:00:00'', system_rc = 0\<rparr>"
  let ?ev' = "\<lparr>malloc_ok = False, now = ''2024-06-01 12:00:00'', system_rc = 0\<rparr>"
  let ?after = "[(Received ''hello'' ''192.168.1.5'',
            \<lparr>malloc_ok = True, now = ''2024-06-01 12:00:01'', system_rc = 0\<rparr>)]"
  have h1: "occurs ''<contactinfo>'' ''<contactinfo><mult1>10</mult1>''" by code_simp
  have h2: "\<not> malloc_ok ?ev'" by simp
  have a: "listener_loop [] = Some []" by simp
  have b: "listener_loop ?after = Some []" by code_simp
  from recoverable_errors[OF h1 h2, of "[]" ?after ?ev "''192.168.1.5''"]
  show ?thesis using h1 h2 a b by auto
qed

section \<open>Tone generation: claims\<close>

lemma num_samples_beep_alsa: "num_samples_beep cfg = num_samples_alsa cfg"
  by (simp only: num_samples_beep_def num_samples_alsa_def)

lemma value_beep_alsa: "value_beep fp cfg n i = value_alsa fp cfg n i"
  by (simp only: value_beep_def value_alsa_def)

lemma body_beep_alsa: "body_beep fp cfg n i = body_alsa fp cfg n i"
  by (simp only: body_beep_def body_alsa_def value_beep_alsa)

lemma loop_beep_alsa: "loop_beep fp cfg n i samples = loop_alsa fp cfg n i samples"
proof (induction fp cfg n i samples rule: loop_beep.induct)
  case (1 fp cfg n i samples)
  show ?case
  proof (cases "i < n")
    case False
    then show ?thesis
      by (subst loop_beep.simps, subst loop_alsa.simps) simp
  next
    case True
    show ?thesis
    proof (cases "body_beep fp cfg n i")
      case None
      then show ?thesis using True
        by (subst loop_beep.simps, subst loop_alsa.simps) (simp add: body_beep_alsa[symmetric])
    next
      case (Some v)
      have "loop_beep fp cfg n i samples = loop_beep fp cfg n (i + 1) (samples[nat i := v])"
        using True Some by (subst loop_beep.simps) simp
      also have "\<dots> = loop_alsa fp cfg n (i + 1) (samples[nat i := v])"
        using True Some by (rule "1.IH")
      also have "\<dots> = loop_alsa fp cfg n i samples"
        using True Some by (subst (2) loop_alsa.simps) (simp add: body_beep_alsa[symmetric])
      finally show ?thesis .
    qed
  qed
qed

lemma tone_beep_alsa: "tone_beep fp cfg samples = tone_alsa fp cfg samples"
  by (simp add: tone_beep_def tone_alsa_def num_samples_beep_alsa loop_beep_alsa
        split: option.splits)

text \<open>What the array held before the loop does not matter.\<close>

lemma loop_beep_init:
  "0 \<le> i \<Longrightarrow> length s1 = nat n \<Longrightarrow> length s2 = nat n \<Longrightarrow>
   (\<forall>k < nat n. int k < i \<longrightarrow> s1 ! k = s2 ! k) \<Longrightarrow>
     loop_beep fp cfg n i s1 = loop_beep fp cfg n i s2"
proof (induction fp cfg n i s1 arbitrary: s2 rule: loop_beep.induct)
  case (1 fp cfg n i s1)
  show ?case
  proof (cases "i < n")
    case False
    have "s1 = s2"
    proof (rule nth_equalityI)
      show "length s1 = length s2" using "1.prems" by simp
      fix k assume "k < length s1"
      then have "k < nat n" "int k < i" using "1.prems"(2) False by auto
      then show "s1 ! k = s2 ! k" using "1.prems"(4) by blast
    qed
    then show ?thesis by simp
  next
    case True
    show ?thesis
    proof (cases "body_beep fp cfg n i")
      case None
      then show ?thesis using True
        by (subst loop_beep.simps, subst (2) loop_beep.simps) simp
    next
      case (Some v)
      have agree: "\<forall>k < nat n. int k < i + 1 \<longrightarrow> (s1[nat i := v]) ! k = (s2[nat i := v]) ! k"
      proof (intro allI impI)
        fix k assume k: "k < nat n" "int k < i + 1"
        show "(s1[nat i := v]) ! k = (s2[nat i := v]) ! k"
        proof (cases "k = nat i")
          case True
          then show ?thesis using k "1.prems"(2,3) by simp
        next
          case False
          then have "int k < i" using k(2) "1.prems"(1) by linarith
          then show ?thesis using False k(1) "1.prems"(4) by simp
        qed
      qed
      have "loop_beep fp cfg n i s1 = loop_beep fp cfg n (i + 1) (s1[nat i := v])"
        using True Some by (subst loop_beep.simps) simp
      also have "\<dots> = loop_beep fp cfg n (i + 1) (s2[nat i := v])"
        using "1.prems" agree by (intro "1.IH"[OF True Some]) simp_all
      also have "\<dots> = loop_beep fp cfg n i s2"
        using True Some by (subst (2) loop_beep.simps) simp
      finally show ?thesis .
    qed
  qed
qed

lemma loop_beep_Some:
  "loop_beep fp cfg n i samples = Some out \<Longrightarrow> 0 \<le> i \<Longrightarrow>
     length out = length samples \<and>
     (\<forall>k < length samples. int k < n \<longrightarrow>
        (if i \<le> int k then body_beep fp cfg n (int k) = Some (out ! k) else out ! k = samples ! k))"
proof (induction fp cfg n i samples rule: loop_beep.induct)
  case (1 fp cfg n i samples)
  show ?case
  proof (cases "i < n")
    case False
    then have "out = samples" using "1.prems"(1) by (subst (asm) loop_beep.simps) simp
    then show ?thesis using False by auto
  next
    case True
    then obtain v where v: "body_beep fp cfg n i = Some v"
      and r: "loop_beep fp cfg n (i + 1) (samples[nat i := v]) = Some out"
      using "1.prems"(1) by (subst (asm) loop_beep.simps) (auto split: option.splits)
    from "1.IH"[OF True v r] "1.prems"(2)
    have ih: "length out = length samples"
      "\<forall>k < length samples. int k < n \<longrightarrow>
        (if i + 1 \<le> int k then body_beep fp cfg n (int k) = Some (out ! k)
         else out ! k = (samples[nat i := v]) ! k)"
      by simp_all
    have "\<forall>k < length samples. int k < n \<longrightarrow>
        (if i \<le> int k then body_beep fp cfg n (int k) = Some (out ! k) else out ! k = samples ! k)"
    proof (intro allI impI)
      fix k assume k: "k < length samples" "int k < n"
      show "if i \<le> int k then body_beep fp cfg n (int k) = Some (out ! k) else out ! k = samples ! k"
      proof (cases "int k = i")
        case True
        then have "nat i = k" by simp
        with ih(2) k True v show ?thesis by auto
      next
        case False
        then have "nat i \<noteq> k" using "1.prems"(2) by auto
        with ih(2) k False show ?thesis by auto
      qed
    qed
    with ih(1) show ?thesis by simp
  qed
qed

lemma loop_beep_total:
  "0 \<le> i \<Longrightarrow> (\<forall>k. i \<le> k \<and> k < n \<longrightarrow> body_beep fp cfg n k \<noteq> None) \<Longrightarrow>
     \<exists>out. loop_beep fp cfg n i samples = Some out"
proof (induction fp cfg n i samples rule: loop_beep.induct)
  case (1 fp cfg n i samples)
  show ?case
  proof (cases "i < n")
    case False
    then show ?thesis by (subst loop_beep.simps) simp
  next
    case True
    then obtain v where v: "body_beep fp cfg n i = Some v" using "1.prems"(2) by auto
    have "\<exists>out. loop_beep fp cfg n (i + 1) (samples[nat i := v]) = Some out"
      using "1.prems" by (intro "1.IH"[OF True v]) auto
    then show ?thesis using True v by (subst loop_beep.simps) simp
  qed
qed

lemma tone_beep_init:
  assumes "num_samples_beep cfg = Some n" "length s1 = nat n" "length s2 = nat n"
  shows "tone_beep fp cfg s1 = tone_beep fp cfg s2"
  unfolding tone_beep_def assms(1) option.case
  by (rule loop_beep_init) (use assms(2,3) in simp_all)

lemma tone_beep_Some:
  assumes "num_samples_beep cfg = Some n" "length s1 = nat n" "tone_beep fp cfg s1 = Some out"
  shows "length out = nat n" "k < nat n \<Longrightarrow> body_beep fp cfg n (int k) = Some (out ! k)"
proof -
  have l: "loop_beep fp cfg n 0 s1 = Some out"
    using assms(3) by (simp add: tone_beep_def assms(1))
  from loop_beep_Some[OF l] assms(2) show "length out = nat n" by simp
  assume "k < nat n"
  with loop_beep_Some[OF l] assms(2) show "body_beep fp cfg n (int k) = Some (out ! k)"
    by auto
qed

lemma tone_beep_defined:
  assumes "num_samples_beep cfg = Some n" "length s1 = nat n"
  shows "tone_beep fp cfg s1 \<noteq> None \<longleftrightarrow> (\<forall>k. 0 \<le> k \<and> k < n \<longrightarrow> body_beep fp cfg n k \<noteq> None)"
proof
  assume "tone_beep fp cfg s1 \<noteq> None"
  then obtain out where out: "tone_beep fp cfg s1 = Some out" by auto
  show "\<forall>k. 0 \<le> k \<and> k < n \<longrightarrow> body_beep fp cfg n k \<noteq> None"
  proof (intro allI impI)
    fix k assume k: "0 \<le> k \<and> k < n"
    then have "nat k < nat n" by simp
    from tone_beep_Some(2)[OF assms out this] k show "body_beep fp cfg n k \<noteq> None" by simp
  qed
next
  assume a: "\<forall>k. 0 \<le> k \<and> k < n \<longrightarrow> body_beep fp cfg n k \<noteq> None"
  have "\<exists>out. loop_beep fp cfg n 0 s1 = Some out"
    by (rule loop_beep_total) (use a in simp_all)
  then show "tone_beep fp cfg s1 \<noteq> None"
    by (auto simp: tone_beep_def assms(1))
qed

text \<open>
  C6. Whatever the machine computes for the operations on \<open>double\<close>, and whatever the
  two arrays held when \<open>malloc\<close> returned them: for the same macros the loops of
  strategy 2 and strategy 3 count the same number of samples and leave the same
  array, and so do two runs of the same loop; either both are undefined, which
  happens when a value does not fit a \<open>short\<close>, or the array has \<open>num_samples\<close> elements,
  the element at each index being the 16-bit value that either loop body computes
  there.
\<close>

theorem tone_loops_agree:
  assumes "num_samples_beep cfg = Some n" "length s1 = nat n" "length s2 = nat n"
  shows "num_samples_alsa cfg = Some n
       \<and> tone_beep fp cfg s1 = tone_alsa fp cfg s2
       \<and> tone_beep fp cfg s1 = tone_beep fp cfg s2
       \<and> tone_alsa fp cfg s1 = tone_alsa fp cfg s2
       \<and> (tone_beep fp cfg s1 \<noteq> None \<longleftrightarrow>
            (\<forall>k. 0 \<le> k \<and> k < n \<longrightarrow> body_beep fp cfg n k \<noteq> None))
       \<and> (\<forall>out. tone_beep fp cfg s1 = Some out \<longrightarrow>
             length out = nat n \<and>
             (\<forall>k < nat n. body_beep fp cfg n (int k) = Some (out ! k)
                        \<and> body_alsa fp cfg n (int k) = Some (out ! k)))"
proof -
  have 1: "num_samples_alsa cfg = Some n"
    using assms(1) by (simp only: num_samples_beep_alsa)
  have 3: "tone_beep fp cfg s1 = tone_beep fp cfg s2"
    using assms by (rule tone_beep_init)
  have 2: "tone_beep fp cfg s1 = tone_alsa fp cfg s2"
    using 3 by (simp only: tone_beep_alsa)
  have 4: "tone_alsa fp cfg s1 = tone_alsa fp cfg s2"
    using 3 by (simp only: tone_beep_alsa)
  have 5: "tone_beep fp cfg s1 \<noteq> None \<longleftrightarrow>
            (\<forall>k. 0 \<le> k \<and> k < n \<longrightarrow> body_beep fp cfg n k \<noteq> None)"
    using assms(1,2) by (rule tone_beep_defined)
  have 6: "\<forall>out. tone_beep fp cfg s1 = Some out \<longrightarrow>
             length out = nat n \<and>
             (\<forall>k < nat n. body_beep fp cfg n (int k) = Some (out ! k)
                        \<and> body_alsa fp cfg n (int k) = Some (out ! k))"
  proof (intro allI impI conjI)
    fix out assume out: "tone_beep fp cfg s1 = Some out"
    show "length out = nat n" using assms(1,2) out by (rule tone_beep_Some(1))
    fix k assume k: "k < nat n"
    show "body_beep fp cfg n (int k) = Some (out ! k)"
      using assms(1,2) out k by (rule tone_beep_Some(2))
    then show "body_alsa fp cfg n (int k) = Some (out ! k)"
      by (simp only: body_beep_alsa)
  qed
  from 1 2 3 4 5 6 show ?thesis by blast
qed

lemma num_samples_configured: "num_samples_beep configured = Some 17640"
  by (simp add: num_samples_beep_def int_mul_def in_int_def configured_def c_div_def)

theorem tone_loops_agree_witness:
  "num_samples_beep configured = Some 17640
   \<and> length (replicate 17640 (0 :: 16 word)) = nat 17640
   \<and> length (replicate 17640 (1 :: 16 word)) = nat 17640
   \<and> num_samples_alsa configured = Some 17640
   \<and> tone_beep exact configured (replicate 17640 0) = tone_alsa exact configured (replicate 17640 1)
   \<and> tone_beep exact configured (replicate 17640 0) = tone_beep exact configured (replicate 17640 1)"
proof -
  have h1: "num_samples_beep configured = Some 17640" by (rule num_samples_configured)
  have h2: "length (replicate 17640 (0 :: 16 word)) = nat 17640" by simp
  have h3: "length (replicate 17640 (1 :: 16 word)) = nat 17640" by simp
  from tone_loops_agree[OF h1 h2 h3, of exact]
  show ?thesis using h1 h2 h3 by blast
qed

subsection \<open>Rounding errors\<close>

lemma sin_lipschitz: "\<bar>sin a - sin b\<bar> \<le> \<bar>a - b\<bar>" for a b :: real
proof -
  have s: "\<bar>sin ((a - b) / 2)\<bar> \<le> \<bar>(a - b) / 2\<bar>" by (rule abs_sin_x_le_abs_x)
  have c: "\<bar>cos ((a + b) / 2)\<bar> \<le> 1" by simp
  have "\<bar>sin ((a - b) / 2)\<bar> * \<bar>cos ((a + b) / 2)\<bar> \<le> \<bar>(a - b) / 2\<bar> * 1"
    using s c by (intro mult_mono) simp_all
  moreover have "\<bar>sin a - sin b\<bar> = 2 * (\<bar>sin ((a - b) / 2)\<bar> * \<bar>cos ((a + b) / 2)\<bar>)"
    by (simp add: sin_diff_sin abs_mult)
  ultimately show ?thesis by simp
qed

lemma ieee_likeD:
  assumes "ieee_like u fp"
  shows "0 \<le> u"
    "\<bar>n\<bar> \<le> 2 ^ 53 \<Longrightarrow> fp_of_int fp n = real_of_int n"
    "\<bar>x\<bar> \<le> 10 ^ 100 \<Longrightarrow> \<bar>fp_lit fp x - x\<bar> \<le> u * (\<bar>x\<bar> + 1)"
    "\<bar>fp_pi fp - pi\<bar> \<le> u * (pi + 1)"
    "\<bar>x * y\<bar> \<le> 10 ^ 100 \<Longrightarrow> \<bar>fp_mul fp x y - x * y\<bar> \<le> u * (\<bar>x * y\<bar> + 1)"
    "y \<noteq> 0 \<Longrightarrow> \<bar>x / y\<bar> \<le> 10 ^ 100 \<Longrightarrow> \<bar>fp_div fp x y - x / y\<bar> \<le> u * (\<bar>x / y\<bar> + 1)"
    "\<bar>fp_sin fp x - sin x\<bar> \<le> u"
  using assms unfolding ieee_like_def by blast+

text \<open>One product: the errors of the factors and the rounding of the product.\<close>

lemma mul_err:
  assumes fp: "ieee_like u fp" "u \<le> U"
      and x: "\<bar>x' - x\<bar> \<le> ex" "\<bar>x\<bar> \<le> X"
      and y: "\<bar>y' - y\<bar> \<le> ey" "\<bar>y\<bar> \<le> Y"
      and big: "(X + ex) * (Y + ey) \<le> 10 ^ 100"
  shows "\<bar>fp_mul fp x' y' - x * y\<bar> \<le> U * ((X + ex) * (Y + ey) + 1) + (ex * (Y + ey) + X * ey)"
proof -
  have nn: "0 \<le> ex" "0 \<le> ey" "0 \<le> X" "0 \<le> Y" "0 \<le> u"
    using x y ieee_likeD(1)[OF fp(1)] by linarith+
  have x': "\<bar>x'\<bar> \<le> X + ex" using x by linarith
  have y': "\<bar>y'\<bar> \<le> Y + ey" using y by linarith
  have p: "\<bar>x' * y'\<bar> \<le> (X + ex) * (Y + ey)"
    unfolding abs_mult using x' y' by (intro mult_mono) (use nn in simp_all)
  then have "\<bar>x' * y'\<bar> \<le> 10 ^ 100" using big by linarith
  from ieee_likeD(5)[OF fp(1) this]
  have "\<bar>fp_mul fp x' y' - x' * y'\<bar> \<le> u * (\<bar>x' * y'\<bar> + 1)" .
  also have "\<dots> \<le> U * ((X + ex) * (Y + ey) + 1)"
    using fp(2) p nn by (intro mult_mono) simp_all
  finally have r: "\<bar>fp_mul fp x' y' - x' * y'\<bar> \<le> U * ((X + ex) * (Y + ey) + 1)" .
  have "x' * y' - x * y = (x' - x) * y' + x * (y' - y)" by (simp add: algebra_simps)
  then have "\<bar>x' * y' - x * y\<bar> \<le> \<bar>(x' - x) * y'\<bar> + \<bar>x * (y' - y)\<bar>"
    by (simp add: abs_triangle_ineq)
  also have "\<dots> \<le> ex * (Y + ey) + X * ey"
    unfolding abs_mult using x y y' nn by (intro add_mono mult_mono) simp_all
  finally have e: "\<bar>x' * y' - x * y\<bar> \<le> ex * (Y + ey) + X * ey" .
  have "\<bar>fp_mul fp x' y' - x * y\<bar> \<le> \<bar>fp_mul fp x' y' - x' * y'\<bar> + \<bar>x' * y' - x * y\<bar>"
    by linarith
  with r e show ?thesis by linarith
qed

text \<open>A quotient of two integers that convert exactly.\<close>

lemma div_err:
  assumes fp: "ieee_like u fp" "u \<le> U"
      and a: "\<bar>a\<bar> \<le> 2 ^ 53" and b: "\<bar>b\<bar> \<le> 2 ^ 53" "b \<noteq> 0"
      and q: "\<bar>real_of_int a / real_of_int b\<bar> \<le> Q" "Q \<le> 10 ^ 100"
  shows "\<bar>fp_div fp (fp_of_int fp a) (fp_of_int fp b) - real_of_int a / real_of_int b\<bar> \<le> U * (Q + 1)"
proof -
  have nn: "0 \<le> u" "0 \<le> Q" using ieee_likeD(1)[OF fp(1)] q by linarith+
  have c: "fp_of_int fp a = real_of_int a" "fp_of_int fp b = real_of_int b"
    using ieee_likeD(2)[OF fp(1)] a b by simp_all
  have "\<bar>real_of_int a / real_of_int b\<bar> \<le> 10 ^ 100" using q by linarith
  from ieee_likeD(6)[OF fp(1) _ this] b(2)
  have "\<bar>fp_div fp (real_of_int a) (real_of_int b) - real_of_int a / real_of_int b\<bar>
          \<le> u * (\<bar>real_of_int a / real_of_int b\<bar> + 1)" by simp
  also have "\<dots> \<le> U * (Q + 1)"
    using fp(2) q nn by (intro mult_mono) simp_all
  finally show ?thesis unfolding c .
qed

lemma lit_err:
  assumes fp: "ieee_like u fp" "u \<le> U" and x: "\<bar>x\<bar> \<le> X" "X \<le> 10 ^ 100"
  shows "\<bar>fp_lit fp x - x\<bar> \<le> U * (X + 1)"
proof -
  have nn: "0 \<le> u" "0 \<le> X" using ieee_likeD(1)[OF fp(1)] x by linarith+
  have "\<bar>x\<bar> \<le> 10 ^ 100" using x by linarith
  from ieee_likeD(3)[OF fp(1) this] have "\<bar>fp_lit fp x - x\<bar> \<le> u * (\<bar>x\<bar> + 1)" .
  also have "\<dots> \<le> U * (X + 1)" using fp(2) x nn by (intro mult_mono) simp_all
  finally show ?thesis .
qed

lemma sin_err:
  assumes fp: "ieee_like u fp" "u \<le> U" and x: "\<bar>x' - x\<bar> \<le> ex"
  shows "\<bar>fp_sin fp x' - sin x\<bar> \<le> U + ex"
proof -
  have "\<bar>fp_sin fp x' - sin x'\<bar> \<le> u" by (rule ieee_likeD(7)[OF fp(1)])
  moreover have "\<bar>sin x' - sin x\<bar> \<le> \<bar>x' - x\<bar>" by (rule sin_lipschitz)
  ultimately show ?thesis using fp(2) x by linarith
qed

lemma fade_spec_configured:
  "fade_spec configured 17640 i =
     (if i < 882 then real_of_int i / 882
      else if 16758 < i then real_of_int (17640 - i) / 882 else 1)"
  by (simp add: fade_spec_def configured_def)

lemma fade_configured_range:
  assumes "0 \<le> i" "i < 17640"
  shows "\<bar>fade_spec configured 17640 i\<bar> \<le> 1"
  using assms unfolding fade_spec_configured by auto

lemma value_beep_configured:
  "value_beep fp configured 17640 i =
     fp_mul fp
       (fp_mul fp
          (fp_mul fp (fp_lit fp (6 / 10))
             (if i < 882 then fp_div fp (fp_of_int fp i) (fp_of_int fp 882)
              else if 16758 < i then fp_div fp (fp_of_int fp (17640 - i)) (fp_of_int fp 882)
              else fp_lit fp 1))
          (fp_sin fp
             (fp_mul fp (fp_mul fp (fp_mul fp (fp_lit fp 2) (fp_pi fp)) (fp_of_int fp 880))
                (fp_div fp (fp_of_int fp i) (fp_of_int fp 44100)))))
       (fp_lit fp 32767)"
  by (simp add: value_beep_def configured_def c_div_def Let_def)

lemma wave_spec_configured:
  "wave_spec configured 17640 i =
     6 / 10 * fade_spec configured 17640 i * sin (2 * pi * 880 * (real_of_int i / 44100)) * 32767"
  by (simp add: wave_spec_def configured_def)

lemma value_beep_accurate:
  assumes fp: "ieee_like u fp" "u \<le> 1 / 10 ^ 15" and i: "0 \<le> i" "i < 17640"
  shows "\<bar>value_beep fp configured 17640 i - wave_spec configured 17640 i\<bar> \<le> 1 / 10 ^ 5"
proof -
  define t where "t = real_of_int i / 44100"
  define f where "f = fade_spec configured 17640 i"
  define T' where "T' = fp_div fp (fp_of_int fp i) (fp_of_int fp 44100)"
  define F' where "F' = (if i < 882 then fp_div fp (fp_of_int fp i) (fp_of_int fp 882)
              else if 16758 < i then fp_div fp (fp_of_int fp (17640 - i)) (fp_of_int fp 882)
              else fp_lit fp 1)"
  define P where "P = fp_mul fp (fp_lit fp 2) (fp_pi fp)"
  define Q where "Q = fp_mul fp P (fp_of_int fp 880)"
  define C where "C = fp_mul fp Q T'"
  define S where "S = fp_sin fp C"
  define V where "V = fp_mul fp (fp_lit fp (6 / 10)) F'"
  define M where "M = fp_mul fp V S"
  define R where "R = fp_mul fp M (fp_lit fp 32767)"
  have u0: "0 \<le> u" using fp(1) by (rule ieee_likeD(1))
  have p4: "\<bar>pi\<bar> \<le> 4" using pi_less_4 pi_gt_zero by simp

  have tb: "\<bar>t\<bar> \<le> 2 / 5" using i by (simp add: t_def)
  have "\<bar>T' - real_of_int i / real_of_int 44100\<bar> \<le> 1 / 10 ^ 15 * (2 / 5 + 1)"
    unfolding T'_def by (rule div_err[OF fp]) (use i in simp_all)
  then have eT: "\<bar>T' - t\<bar> \<le> 2 / 10 ^ 15" by (simp add: t_def)

  have "\<bar>fp_lit fp 2 - 2\<bar> \<le> 1 / 10 ^ 15 * (2 + 1)"
    by (rule lit_err[OF fp]) simp_all
  then have e2: "\<bar>fp_lit fp 2 - 2\<bar> \<le> 3 / 10 ^ 15" by simp
  have "\<bar>fp_pi fp - pi\<bar> \<le> u * (pi + 1)" using fp(1) by (rule ieee_likeD(4))
  also have "\<dots> \<le> 1 / 10 ^ 15 * (4 + 1)"
    using fp(2) u0 pi_less_4 pi_gt_zero by (intro mult_mono) simp_all
  finally have epi: "\<bar>fp_pi fp - pi\<bar> \<le> 5 / 10 ^ 15" by simp

  have "\<bar>P - 2 * pi\<bar> \<le> 1 / 10 ^ 15 * ((2 + 3 / 10 ^ 15) * (4 + 5 / 10 ^ 15) + 1)
                          + (3 / 10 ^ 15 * (4 + 5 / 10 ^ 15) + 2 * (5 / 10 ^ 15))"
    unfolding P_def by (rule mul_err[OF fp e2 _ epi p4]) simp_all
  then have eP: "\<bar>P - 2 * pi\<bar> \<le> 4 / 10 ^ 14" by simp
  have bP: "\<bar>2 * pi\<bar> \<le> 8" using p4 by simp

  have c880: "fp_of_int fp 880 = 880" using ieee_likeD(2)[OF fp(1), of 880] by simp
  have "\<bar>Q - 2 * pi * 880\<bar> \<le> 1 / 10 ^ 15 * ((8 + 4 / 10 ^ 14) * (880 + 0) + 1)
                          + (4 / 10 ^ 14 * (880 + 0) + 8 * 0)"
    unfolding Q_def c880 by (rule mul_err[OF fp eP bP]) simp_all
  then have eQ: "\<bar>Q - 2 * pi * 880\<bar> \<le> 5 / 10 ^ 11" by simp
  have bQ: "\<bar>2 * pi * 880\<bar> \<le> 7040" using p4 by simp

  have "\<bar>C - 2 * pi * 880 * t\<bar> \<le> 1 / 10 ^ 15 * ((7040 + 5 / 10 ^ 11) * (2 / 5 + 2 / 10 ^ 15) + 1)
                          + (5 / 10 ^ 11 * (2 / 5 + 2 / 10 ^ 15) + 7040 * (2 / 10 ^ 15))"
    unfolding C_def by (rule mul_err[OF fp eQ bQ eT tb]) simp
  then have eC: "\<bar>C - 2 * pi * 880 * t\<bar> \<le> 4 / 10 ^ 11" by simp

  have "\<bar>S - sin (2 * pi * 880 * t)\<bar> \<le> 1 / 10 ^ 15 + 4 / 10 ^ 11"
    unfolding S_def by (rule sin_err[OF fp eC])
  then have eS: "\<bar>S - sin (2 * pi * 880 * t)\<bar> \<le> 5 / 10 ^ 11" by simp
  have bS: "\<bar>sin (2 * pi * 880 * t)\<bar> \<le> 1" by simp

  have bf: "\<bar>f\<bar> \<le> 1" unfolding f_def using i by (rule fade_configured_range)
  have eF: "\<bar>F' - f\<bar> \<le> 2 / 10 ^ 15"
  proof -
    consider "i < 882" | "\<not> i < 882" "16758 < i" | "\<not> i < 882" "\<not> 16758 < i" by blast
    then show ?thesis
    proof cases
      case 1
      have "\<bar>fp_div fp (fp_of_int fp i) (fp_of_int fp 882) - real_of_int i / real_of_int 882\<bar>
              \<le> 1 / 10 ^ 15 * (1 + 1)"
        by (rule div_err[OF fp]) (use i 1 in simp_all)
      then show ?thesis using 1 by (simp add: F'_def f_def fade_spec_configured)
    next
      case 2
      have "\<bar>fp_div fp (fp_of_int fp (17640 - i)) (fp_of_int fp 882)
               - real_of_int (17640 - i) / real_of_int 882\<bar> \<le> 1 / 10 ^ 15 * (1 + 1)"
        by (rule div_err[OF fp]) (use i 2 in simp_all)
      then show ?thesis using 2 by (simp add: F'_def f_def fade_spec_configured)
    next
      case 3
      have "\<bar>fp_lit fp 1 - 1\<bar> \<le> 1 / 10 ^ 15 * (1 + 1)"
        by (rule lit_err[OF fp]) simp_all
      then show ?thesis using 3 by (simp add: F'_def f_def fade_spec_configured)
    qed
  qed

  have "\<bar>fp_lit fp (6 / 10) - 6 / 10\<bar> \<le> 1 / 10 ^ 15 * (6 / 10 + 1)"
    by (rule lit_err[OF fp]) simp_all
  then have ev0: "\<bar>fp_lit fp (6 / 10) - 6 / 10\<bar> \<le> 2 / 10 ^ 15" by simp
  have bv0: "\<bar>6 / 10 :: real\<bar> \<le> 6 / 10" by simp
  have "\<bar>V - 6 / 10 * f\<bar> \<le> 1 / 10 ^ 15 * ((6 / 10 + 2 / 10 ^ 15) * (1 + 2 / 10 ^ 15) + 1)
                          + (2 / 10 ^ 15 * (1 + 2 / 10 ^ 15) + 6 / 10 * (2 / 10 ^ 15))"
    unfolding V_def by (rule mul_err[OF fp ev0 bv0 eF bf]) simp
  then have eV: "\<bar>V - 6 / 10 * f\<bar> \<le> 5 / 10 ^ 15" by simp
  have bV: "\<bar>6 / 10 * f\<bar> \<le> 6 / 10" using bf by (simp add: abs_mult)

  have "\<bar>M - 6 / 10 * f * sin (2 * pi * 880 * t)\<bar>
          \<le> 1 / 10 ^ 15 * ((6 / 10 + 5 / 10 ^ 15) * (1 + 5 / 10 ^ 11) + 1)
                          + (5 / 10 ^ 15 * (1 + 5 / 10 ^ 11) + 6 / 10 * (5 / 10 ^ 11))"
    unfolding M_def by (rule mul_err[OF fp eV bV eS bS]) simp
  then have eM: "\<bar>M - 6 / 10 * f * sin (2 * pi * 880 * t)\<bar> \<le> 4 / 10 ^ 11" by simp
  have "\<bar>6 / 10 * f * sin (2 * pi * 880 * t)\<bar> = \<bar>6 / 10 * f\<bar> * \<bar>sin (2 * pi * 880 * t)\<bar>"
    by (simp only: abs_mult)
  also have "\<dots> \<le> 6 / 10 * 1" using bV bS by (intro mult_mono) simp_all
  finally have bM: "\<bar>6 / 10 * f * sin (2 * pi * 880 * t)\<bar> \<le> 6 / 10" by simp

  have "\<bar>fp_lit fp 32767 - 32767\<bar> \<le> 1 / 10 ^ 15 * (32767 + 1)"
    by (rule lit_err[OF fp]) simp_all
  then have eK: "\<bar>fp_lit fp 32767 - 32767\<bar> \<le> 4 / 10 ^ 11" by simp
  have bK: "\<bar>32767 :: real\<bar> \<le> 32767" by simp
  have "\<bar>R - 6 / 10 * f * sin (2 * pi * 880 * t) * 32767\<bar>
          \<le> 1 / 10 ^ 15 * ((6 / 10 + 4 / 10 ^ 11) * (32767 + 4 / 10 ^ 11) + 1)
                          + (4 / 10 ^ 11 * (32767 + 4 / 10 ^ 11) + 6 / 10 * (4 / 10 ^ 11))"
    unfolding R_def by (rule mul_err[OF fp eM bM eK bK]) simp
  then have eR: "\<bar>R - 6 / 10 * f * sin (2 * pi * 880 * t) * 32767\<bar> \<le> 1 / 10 ^ 5" by simp

  have v: "value_beep fp configured 17640 i = R"
    unfolding value_beep_configured R_def M_def V_def S_def C_def Q_def P_def F'_def T'_def ..
  have w: "wave_spec configured 17640 i = 6 / 10 * f * sin (2 * pi * 880 * t) * 32767"
    unfolding wave_spec_configured f_def t_def ..
  show ?thesis unfolding v w by (rule eR)
qed

subsection \<open>The stored sample\<close>

lemma wave_configured_bound:
  assumes "0 \<le> i" "i < 17640"
  shows "\<bar>wave_spec configured 17640 i\<bar> \<le> 19661"
proof -
  let ?s = "sin (2 * pi * 880 * (real_of_int i / 44100))"
  have f: "\<bar>fade_spec configured 17640 i\<bar> \<le> 1" using assms by (rule fade_configured_range)
  have "\<bar>fade_spec configured 17640 i\<bar> * \<bar>?s\<bar> \<le> 1 * 1"
    using f by (intro mult_mono) simp_all
  then have "\<bar>fade_spec configured 17640 i * ?s\<bar> \<le> 1" by (simp add: abs_mult)
  then show ?thesis unfolding wave_spec_configured by (simp add: abs_mult)
qed

lemma e5: "(1 / 10 ^ 5 :: real) = 1 / 100000"
  by simp

lemma c_trunc_bound: "\<bar>x\<bar> \<le> 32767 \<Longrightarrow> - 32767 \<le> c_trunc x \<and> c_trunc x \<le> 32767"
  unfolding c_trunc_def by (auto simp: le_floor_iff floor_le_iff ceiling_le_iff le_ceiling_iff)

lemma sint_short: "- 32767 \<le> z \<Longrightarrow> z \<le> 32767 \<Longrightarrow> sint (word_of_int z :: 16 word) = z"
  by (simp add: sint_sbintrunc' signed_take_bit_int_eq_self)

lemma to_short_in_range:
  assumes "\<bar>x\<bar> \<le> 32767"
  shows "\<exists>w. to_short x = Some w \<and> sint w = c_trunc x"
proof -
  have "- 32769 < x \<and> x < 32768" using assms by (auto simp: abs_le_iff)
  then have "to_short x = Some (word_of_int (c_trunc x))" by (simp add: to_short_def)
  moreover have "sint (word_of_int (c_trunc x) :: 16 word) = c_trunc x"
    using c_trunc_bound[OF assms] by (intro sint_short) simp_all
  ultimately show ?thesis by simp
qed

text \<open>Truncation moves by less than one, towards zero.\<close>

lemma c_trunc_close: "\<bar>real_of_int (c_trunc x) - x\<bar> < 1"
  unfolding c_trunc_def by (simp split: if_splits) linarith

text \<open>
  Two values closer than \<open>e\<close> have the same truncation unless a non-zero integer lies
  within \<open>e\<close> of one of them.
\<close>

lemma c_trunc_near:
  assumes d: "\<bar>d - w\<bar> \<le> e" and e: "e < 1"
      and far: "\<forall>z::int. z \<noteq> 0 \<longrightarrow> e < \<bar>w - real_of_int z\<bar>"
  shows "c_trunc d = c_trunc w"
proof (cases "0 \<le> w")
  case True
  define z where "z = \<lfloor>w\<rfloor>"
  have z: "real_of_int z \<le> w" "w < real_of_int z + 1" "0 \<le> z"
    using True by (simp_all add: z_def)
  have "z + 1 \<noteq> 0" using z(3) by simp
  from far[rule_format, OF this] z(2) have up: "e < real_of_int z + 1 - w" by simp
  have cw: "c_trunc w = z" using True by (simp add: c_trunc_def z_def)
  show ?thesis
  proof (cases "z = 0")
    case True
    have "- 1 < d" "d < 1" using d e up z True by simp_all
    then have "c_trunc d = 0"
      unfolding c_trunc_def by (auto simp: floor_eq_iff ceiling_eq_iff)
    with cw True show ?thesis by simp
  next
    case False
    from far[rule_format, OF this] z(1) have "e < w - real_of_int z" by simp
    then have "real_of_int z \<le> d" "d < real_of_int z + 1" using d up by linarith+
    moreover have "0 \<le> d" using calculation(1) z(3) by linarith
    ultimately have "c_trunc d = z" unfolding c_trunc_def by (simp add: floor_eq_iff)
    with cw show ?thesis by simp
  qed
next
  case neg: False
  define z where "z = \<lceil>w\<rceil>"
  have z: "real_of_int z - 1 < w" "w \<le> real_of_int z" "z \<le> 0"
    using neg by (simp_all add: z_def ceiling_le_iff) linarith
  have "z - 1 \<noteq> 0" using z(3) by simp
  from far[rule_format, OF this] z(1) have low: "e < w - (real_of_int z - 1)" by simp
  have cw: "c_trunc w = z" using neg by (simp add: c_trunc_def z_def)
  show ?thesis
  proof (cases "z = 0")
    case True
    have "- 1 < d" "d < 1" using d e low z True neg by simp_all
    then have "c_trunc d = 0"
      unfolding c_trunc_def by (auto simp: floor_eq_iff ceiling_eq_iff)
    with cw True show ?thesis by simp
  next
    case False
    from far[rule_format, OF this] z(2) have "e < real_of_int z - w" by simp
    then have "real_of_int z - 1 < d" "d \<le> real_of_int z" "d < real_of_int z" using d low by linarith+
    moreover have "\<not> 0 \<le> d" using calculation(3) z(3) by linarith
    ultimately have "c_trunc d = z" unfolding c_trunc_def by (simp add: ceiling_eq_iff)
    with cw show ?thesis by simp
  qed
qed

lemma stored_sample:
  assumes fp: "ieee_like u fp" "u \<le> 1 / 10 ^ 15"
      and len: "length samples = 17640" and i: "0 \<le> i" "i < 17640"
  shows "\<exists>out. tone_beep fp configured samples = Some out
           \<and> sint (out ! nat i) = c_trunc (value_beep fp configured 17640 i)"
proof -
  have ok: "\<exists>w. body_beep fp configured 17640 k = Some w
               \<and> sint w = c_trunc (value_beep fp configured 17640 k)"
    if k: "0 \<le> k" "k < 17640" for k
  proof -
    have "\<bar>value_beep fp configured 17640 k - wave_spec configured 17640 k\<bar> \<le> 1 / 10 ^ 5"
      using fp k by (rule value_beep_accurate)
    moreover have "\<bar>wave_spec configured 17640 k\<bar> \<le> 19661"
      using k by (rule wave_configured_bound)
    ultimately have "\<bar>value_beep fp configured 17640 k\<bar> \<le> 32767"
      unfolding e5 by linarith
    then show ?thesis unfolding body_beep_def by (rule to_short_in_range)
  qed
  have l: "length samples = nat 17640" using len by simp
  have "\<forall>k. 0 \<le> k \<and> k < 17640 \<longrightarrow> body_beep fp configured 17640 k \<noteq> None"
    using ok by fastforce
  then have "tone_beep fp configured samples \<noteq> None"
    using tone_beep_defined[OF num_samples_configured l] by blast
  then obtain out where out: "tone_beep fp configured samples = Some out" by auto
  have "nat i < nat 17640" using i by simp
  from tone_beep_Some(2)[OF num_samples_configured l out this] i
  have "body_beep fp configured 17640 i = Some (out ! nat i)" by simp
  with ok[OF i] have "sint (out ! nat i) = c_trunc (value_beep fp configured 17640 i)" by auto
  with out show ?thesis by blast
qed

lemma ieee_like_exact: "ieee_like 0 exact"
  by (simp add: ieee_like_def exact_def)

lemma value_beep_exact: "value_beep exact configured 17640 i = wave_spec configured 17640 i"
  unfolding value_beep_configured wave_spec_configured fade_spec_configured
  by (simp add: exact_def)

lemma sin_at_735: "sin (2 * pi * 880 * (real_of_int 735 / 44100)) = - (sqrt 3 / 2)"
proof -
  have "2 * pi * 880 * (real_of_int 735 / 44100) = pi / 3 + 29 * pi"
    by simp
  then have "sin (2 * pi * 880 * (real_of_int 735 / 44100)) = sin (pi / 3 + 29 * pi)"
    by simp
  also have "\<dots> = sin (pi / 3) * cos (29 * pi) + cos (pi / 3) * sin (29 * pi)"
    by (rule sin_add)
  also have "\<dots> = - (sqrt 3 / 2)"
    by (simp add: sin_60)
  finally show ?thesis .
qed

lemma wave_at_735: "wave_spec configured 17640 735 = - (32767 / 4 * sqrt 3)"
  unfolding wave_spec_configured fade_spec_configured sin_at_735 by simp

lemma sqrt3_bounds: "173205 / 100000 < sqrt 3" "sqrt 3 < 17321 / 10000"
proof -
  show "173205 / 100000 < sqrt 3"
    by (rule real_less_rsqrt) (simp add: power2_eq_square)
  show "sqrt 3 < 17321 / 10000"
    by (rule real_less_lsqrt) (simp_all add: power2_eq_square)
qed

lemma wave_at_735_bounds:
  "- (1418894 / 100) < wave_spec configured 17640 735"
  "wave_spec configured 17640 735 < - (1418852 / 100)"
  unfolding wave_at_735 using sqrt3_bounds by simp_all

lemma round_at_735: "sample_rounded configured 17640 735 = - 14189"
  unfolding sample_rounded_def
  by (rule round_unique) (use wave_at_735_bounds in simp_all)

lemma trunc_near_735:
  assumes "\<bar>d - wave_spec configured 17640 735\<bar> \<le> 1 / 10 ^ 5"
  shows "c_trunc d = - 14188"
proof -
  have "- 14189 < d" "d \<le> - 14188"
    using assms wave_at_735_bounds unfolding e5 by linarith+
  then have "\<lceil>d\<rceil> = - 14188" by (intro ceiling_unique) simp_all
  moreover have "\<not> 0 \<le> d" using \<open>d \<le> - 14188\<close> by simp
  ultimately show ?thesis by (simp add: c_trunc_def)
qed

lemma far_at_735:
  "\<forall>z::int. z \<noteq> 0 \<longrightarrow> 1 / 10 ^ 5 < \<bar>wave_spec configured 17640 735 - real_of_int z\<bar>"
proof (intro allI impI)
  fix z :: int
  show "1 / 10 ^ 5 < \<bar>wave_spec configured 17640 735 - real_of_int z\<bar>"
  proof (cases "z \<le> - 14189")
    case True
    then have "real_of_int z \<le> - 14189" by linarith
    then show ?thesis using wave_at_735_bounds by simp
  next
    case False
    then have "- 14188 \<le> z" by simp
    then have "- 14188 \<le> real_of_int z" by linarith
    then show ?thesis using wave_at_735_bounds by simp
  qed
qed

text \<open>
  C7 as stated fails: the conversion \<open>(short)\<close> discards the fractional part, it does
  not round. With the configured macros the exact value of the formula at index 735
  is \<open>- 32767 / 4 * sqrt 3\<close>, about \<open>- 14188.53\<close>, and its rounded value \<open>- 14189\<close>. The
  stored sample is \<open>- 14188\<close>: so it is in the arithmetic without rounding error, and
  in no arithmetic that meets \<open>ieee_like\<close> with \<open>u \<le> 10 ^ - 15\<close> is the rounded value
  stored.
\<close>

theorem stored_sample_is_not_rounded:
  "sample_rounded configured 17640 735 = - 14189
   \<and> map_option (\<lambda>out. sint (out ! 735)) (tone_beep exact configured (replicate 17640 0))
        = Some (- 14188)
   \<and> \<not> (\<exists>fp u out. ieee_like u fp \<and> u \<le> 1 / 10 ^ 15
          \<and> tone_beep fp configured (replicate 17640 0) = Some out
          \<and> sint (out ! 735) = sample_rounded configured 17640 735)"
proof -
  have every: "sint (out ! 735) = - 14188"
    if "ieee_like u fp" "u \<le> 1 / 10 ^ 15"
       "tone_beep fp configured (replicate 17640 0) = Some out" for fp u out
  proof -
    from stored_sample[OF that(1,2), of "replicate 17640 0" 735] that(3)
    have "sint (out ! nat 735) = c_trunc (value_beep fp configured 17640 735)" by simp
    moreover have "c_trunc (value_beep fp configured 17640 735) = - 14188"
      by (rule trunc_near_735) (rule value_beep_accurate[OF that(1,2)], simp_all)
    ultimately show ?thesis by simp
  qed
  obtain out where out: "tone_beep exact configured (replicate 17640 0) = Some out"
    using stored_sample[OF ieee_like_exact, of "replicate 17640 0" 735] by auto
  have 2: "map_option (\<lambda>out. sint (out ! 735)) (tone_beep exact configured (replicate 17640 0))
        = Some (- 14188)"
    using every[OF ieee_like_exact _ out] out by simp
  have 3: "\<not> (\<exists>fp u out. ieee_like u fp \<and> u \<le> 1 / 10 ^ 15
          \<and> tone_beep fp configured (replicate 17640 0) = Some out
          \<and> sint (out ! 735) = sample_rounded configured 17640 735)"
    using every round_at_735 by fastforce
  from round_at_735 2 3 show ?thesis by blast
qed

text \<open>
  C7, amended. With the configured macros and an arithmetic on \<open>double\<close> that meets
  \<open>ieee_like\<close> with \<open>u \<le> 10 ^ - 15\<close>, the loop is defined and the stored sample at every
  index is the \<open>double\<close> computed for the formula with its fractional part discarded;
  that \<open>double\<close> is within \<open>10 ^ - 5\<close> of the exact value of the formula, so the stored
  sample is less than \<open>1 + 10 ^ - 5\<close> away from it, and equal to the truncated exact
  value unless a non-zero integer lies within \<open>10 ^ - 5\<close> of the exact value.
\<close>

theorem stored_sample_is_truncated:
  assumes "ieee_like u fp" "u \<le> 1 / 10 ^ 15"
      and "length samples = 17640" and "0 \<le> i" "i < 17640"
  shows "\<exists>out. tone_beep fp configured samples = Some out
           \<and> sint (out ! nat i) = c_trunc (value_beep fp configured 17640 i)
           \<and> \<bar>value_beep fp configured 17640 i - wave_spec configured 17640 i\<bar> \<le> 1 / 10 ^ 5
           \<and> \<bar>real_of_int (sint (out ! nat i)) - wave_spec configured 17640 i\<bar> < 1 + 1 / 10 ^ 5
           \<and> ((\<forall>z::int. z \<noteq> 0 \<longrightarrow> 1 / 10 ^ 5 < \<bar>wave_spec configured 17640 i - real_of_int z\<bar>)
                \<longrightarrow> sint (out ! nat i) = sample_truncated configured 17640 i)"
proof -
  let ?d = "value_beep fp configured 17640 i"
  let ?w = "wave_spec configured 17640 i"
  from stored_sample[OF assms] obtain out where
    out: "tone_beep fp configured samples = Some out" "sint (out ! nat i) = c_trunc ?d"
    by blast
  have acc: "\<bar>?d - ?w\<bar> \<le> 1 / 10 ^ 5"
    using assms(1,2,4,5) by (rule value_beep_accurate)
  have "\<bar>real_of_int (c_trunc ?d) - ?d\<bar> < 1" by (rule c_trunc_close)
  with acc have near: "\<bar>real_of_int (sint (out ! nat i)) - ?w\<bar> < 1 + 1 / 10 ^ 5"
    unfolding out(2) by linarith
  have "sint (out ! nat i) = sample_truncated configured 17640 i"
    if "\<forall>z::int. z \<noteq> 0 \<longrightarrow> 1 / 10 ^ 5 < \<bar>?w - real_of_int z\<bar>"
    unfolding out(2) sample_truncated_def
    by (rule c_trunc_near[OF acc _ that]) simp
  with out acc near show ?thesis by blast
qed

theorem stored_sample_is_truncated_witness:
  "ieee_like 0 exact \<and> (0 :: real) \<le> 1 / 10 ^ 15
   \<and> length (replicate 17640 (0 :: 16 word)) = 17640 \<and> (0 :: int) \<le> 735 \<and> (735 :: int) < 17640
   \<and> (\<exists>out. tone_beep exact configured (replicate 17640 0) = Some out
         \<and> sint (out ! nat 735) = sample_truncated configured 17640 735
         \<and> sint (out ! nat 735) = - 14188)"
proof -
  have h1: "ieee_like 0 exact" by (rule ieee_like_exact)
  have h2: "(0 :: real) \<le> 1 / 10 ^ 15" by simp
  have h3: "length (replicate 17640 (0 :: 16 word)) = 17640" by simp
  have h4: "(0 :: int) \<le> 735" by simp
  have h5: "(735 :: int) < 17640" by simp
  have t: "sample_truncated configured 17640 735 = - 14188"
    unfolding sample_truncated_def by (rule trunc_near_735) simp
  from stored_sample_is_truncated[OF h1 h2 h3 h4 h5] far_at_735 obtain out where
    "tone_beep exact configured (replicate 17640 0) = Some out"
    "sint (out ! nat 735) = sample_truncated configured 17640 735"
    by blast
  with t h1 h2 h3 show ?thesis by simp
qed

end
